theory Spec2Isabelle
  imports Complex_Main "HOL-Library.Sublist" "HOL-Library.Product_Lexorder"
begin

section \<open>Numbers\<close>

text \<open>
  The program computes on JavaScript numbers. Outside the convex hull, coordinates and
  tolerances are modelled as \<open>real\<close> (finite values, no rounding). A JavaScript
  division never raises: a zero
  divisor yields \<open>NaN\<close> or an infinity. The result of a division is therefore a
  \<open>jsnum\<close>, which keeps these values apart from the finite ones.
\<close>

datatype jsnum = Fin real | PosInf | NegInf | NaN

fun js_div :: "real \<Rightarrow> real \<Rightarrow> jsnum" where
  "js_div a b =
     (if b \<noteq> 0 then Fin (a / b)
      else if a = 0 then NaN
      else if 0 < a then PosInf else NegInf)"

text \<open>\<open>a * b\<close> for a finite \<open>a\<close> and the result \<open>b\<close> of a division.\<close>

fun js_mul :: "real \<Rightarrow> jsnum \<Rightarrow> jsnum" where
  "js_mul a (Fin b) = Fin (a * b)"
| "js_mul a NaN = NaN"
| "js_mul a PosInf = (if a = 0 then NaN else if 0 < a then PosInf else NegInf)"
| "js_mul a NegInf = (if a = 0 then NaN else if 0 < a then NegInf else PosInf)"

text \<open>\<open>a > b\<close>: every comparison with \<open>NaN\<close> is false.\<close>

fun js_gt :: "jsnum \<Rightarrow> jsnum \<Rightarrow> bool" where
  "js_gt (Fin a) (Fin b) = (b < a)"
| "js_gt NaN _ = False"
| "js_gt _ NaN = False"
| "js_gt PosInf PosInf = False"
| "js_gt PosInf _ = True"
| "js_gt NegInf _ = False"
| "js_gt (Fin a) NegInf = True"
| "js_gt (Fin a) PosInf = False"

fun is_finite :: "jsnum \<Rightarrow> bool" where
  "is_finite (Fin a) = True"
| "is_finite _ = False"

text \<open>
  JavaScript numbers are IEEE 754 doubles. \<open>fl64 x\<close> is the double nearest to the real
  number \<open>x\<close>, ties going to the even significand: a significand of 53 bits, the least
  exponent \<open>-1022\<close> (below it the spacing stays \<open>2^-1074\<close>), and an infinity when the
  rounded magnitude reaches \<open>2^1024\<close>. The convex hull below subtracts, multiplies and
  compares with this rounding, since its result depends on it.
\<close>

definition roundEven :: "real \<Rightarrow> int" where
  "roundEven r =
     (let f = \<lfloor>r\<rfloor>; d = r - of_int f
      in if d < 1 / 2 then f else if 1 / 2 < d then f + 1 else if even f then f else f + 1)"

definition fl64 :: "real \<Rightarrow> jsnum" where
  "fl64 x =
     (if x = 0 then Fin 0
      else
        let e = max \<lfloor>log 2 \<bar>x\<bar>\<rfloor> (- 1022);
            y = of_int (roundEven (x / 2 powi (e - 52))) * 2 powi (e - 52)
        in if 2 ^ 1024 \<le> \<bar>y\<bar> then (if 0 < x then PosInf else NegInf) else Fin y)"

text \<open>\<open>a - b\<close>, \<open>a * b\<close> and \<open>a <= b\<close> on doubles.\<close>

fun js_sub :: "jsnum \<Rightarrow> jsnum \<Rightarrow> jsnum" where
  "js_sub (Fin a) (Fin b) = fl64 (a - b)"
| "js_sub NaN _ = NaN"
| "js_sub _ NaN = NaN"
| "js_sub PosInf PosInf = NaN"
| "js_sub NegInf NegInf = NaN"
| "js_sub PosInf _ = PosInf"
| "js_sub NegInf _ = NegInf"
| "js_sub (Fin a) PosInf = NegInf"
| "js_sub (Fin a) NegInf = PosInf"

fun js_times :: "jsnum \<Rightarrow> jsnum \<Rightarrow> jsnum" where
  "js_times (Fin a) (Fin b) = fl64 (a * b)"
| "js_times NaN _ = NaN"
| "js_times _ NaN = NaN"
| "js_times PosInf (Fin b) = (if b = 0 then NaN else if 0 < b then PosInf else NegInf)"
| "js_times NegInf (Fin b) = (if b = 0 then NaN else if 0 < b then NegInf else PosInf)"
| "js_times (Fin a) PosInf = (if a = 0 then NaN else if 0 < a then PosInf else NegInf)"
| "js_times (Fin a) NegInf = (if a = 0 then NaN else if 0 < a then NegInf else PosInf)"
| "js_times PosInf PosInf = PosInf"
| "js_times NegInf NegInf = PosInf"
| "js_times PosInf NegInf = NegInf"
| "js_times NegInf PosInf = NegInf"

fun js_le :: "jsnum \<Rightarrow> jsnum \<Rightarrow> bool" where
  "js_le (Fin a) (Fin b) = (a \<le> b)"
| "js_le NaN _ = False"
| "js_le _ NaN = False"
| "js_le NegInf _ = True"
| "js_le _ PosInf = True"
| "js_le PosInf _ = False"
| "js_le (Fin a) NegInf = False"

section \<open>Line simplifier (Douglas-Peucker)\<close>

text \<open>A position \<open>[x, y]\<close> of the input geometry.\<close>

type_synonym point = "real \<times> real"

text \<open>
  \<open>perpendicularDistance(point, lineStart, lineEnd)\<close>: the distance to the start point
  when the segment is a single point, the distance to the line through the segment
  otherwise.
\<close>

fun perpendicularDistance :: "point \<Rightarrow> point \<Rightarrow> point \<Rightarrow> jsnum" where
  "perpendicularDistance (x, y) (x1, y1) (x2, y2) =
     (let dx = x2 - x1; dy = y2 - y1
      in if dx = 0 \<and> dy = 0 then Fin (sqrt ((x - x1)\<^sup>2 + (y - y1)\<^sup>2))
         else js_div \<bar>dy * x - dx * y + x2 * y1 - y2 * x1\<bar> (sqrt (dx\<^sup>2 + dy\<^sup>2)))"

text \<open>
  The loop of \<open>simplifyLine\<close> over the interior indices \<open>1 .. length - 2\<close>: it keeps the
  largest distance seen so far and its index, starting from distance \<open>0\<close> at index \<open>0\<close>.
\<close>

definition maxStep :: "point list \<Rightarrow> nat \<Rightarrow> jsnum \<times> nat \<Rightarrow> jsnum \<times> nat" where
  "maxStep points i acc =
     (let distance = perpendicularDistance (points ! i) (hd points) (last points)
      in if js_gt distance (fst acc) then (distance, i) else acc)"

definition maxDistanceIndex :: "point list \<Rightarrow> jsnum \<times> nat" where
  "maxDistanceIndex points = fold (maxStep points) [1 ..< length points - 1] (Fin 0, 0)"

text \<open>
  \<open>simplifyLine(points, tolerance)\<close>. The recursion of the source need not end (the
  value \<open>None\<close>): JavaScript then fails with a stack overflow.
\<close>

partial_function (option) simplifyLine :: "point list \<Rightarrow> real \<Rightarrow> point list option" where
  "simplifyLine points tolerance =
     (if length points \<le> 2 then Some points
      else if js_gt (fst (maxDistanceIndex points)) (Fin tolerance) then
        Option.bind (simplifyLine (take (snd (maxDistanceIndex points) + 1) points) tolerance)
          (\<lambda>left. Option.bind (simplifyLine (drop (snd (maxDistanceIndex points)) points) tolerance)
            (\<lambda>right. Some (butlast left @ right)))
      else Some [hd points, last points])"


section \<open>Ring and polygon processor of the preprocessing script\<close>

text \<open>
  The forward projection (EPSG:3347 to WGS84) is computed by the external library
  \<open>proj4\<close>; it is a parameter \<open>proj\<close> of the model, mapping \<open>x\<close> and \<open>y\<close> to the
  pair \<open>[lng, lat]\<close>.
\<close>

definition convertCoord :: "(real \<Rightarrow> real \<Rightarrow> point) \<Rightarrow> real \<Rightarrow> real \<Rightarrow> point" where
  "convertCoord proj x y = (case proj x y of (lng, lat) \<Rightarrow> (lng, lat))"

definition processRing ::
  "(real \<Rightarrow> real \<Rightarrow> point) \<Rightarrow> point list \<Rightarrow> real \<Rightarrow> point list option" where
  "processRing proj ring tolerance =
     map_option (map (\<lambda>(x, y). convertCoord proj x y))
       (if 0 < tolerance then simplifyLine ring tolerance else Some ring)"

definition processPolygon ::
  "(real \<Rightarrow> real \<Rightarrow> point) \<Rightarrow> point list list \<Rightarrow> real \<Rightarrow> point list list option" where
  "processPolygon proj coordinates tolerance =
     those (map (\<lambda>ring. processRing proj ring tolerance) coordinates)"

definition processMultiPolygon ::
  "(real \<Rightarrow> real \<Rightarrow> point) \<Rightarrow> point list list list \<Rightarrow> real \<Rightarrow> point list list list option" where
  "processMultiPolygon proj coordinates tolerance =
     those (map (\<lambda>polygon. processPolygon proj polygon tolerance) coordinates)"

text \<open>The geometries of GeoJSON, told apart by their \<open>type\<close> member.\<close>

datatype geometry =
    Point point
  | MultiPoint "point list"
  | LineString "point list"
  | MultiLineString "point list list"
  | Polygon "point list list"
  | MultiPolygon "point list list list"
  | GeometryCollection "geometry list"

fun supported :: "geometry \<Rightarrow> bool" where
  "supported (Polygon _) = True"
| "supported (MultiPolygon _) = True"
| "supported _ = False"

record 'p Feature =
  properties :: 'p
  geometry :: geometry

fun processFeature ::
  "(real \<Rightarrow> real \<Rightarrow> point) \<Rightarrow> 'p Feature \<Rightarrow> real \<Rightarrow> 'p Feature option" where
  "processFeature proj feature tolerance =
     (case geometry feature of
        Polygon coordinates \<Rightarrow>
          map_option (\<lambda>cs. \<lparr>properties = properties feature, geometry = Polygon cs\<rparr>)
            (processPolygon proj coordinates tolerance)
      | MultiPolygon coordinates \<Rightarrow>
          map_option (\<lambda>cs. \<lparr>properties = properties feature, geometry = MultiPolygon cs\<rparr>)
            (processMultiPolygon proj coordinates tolerance)
      | _ \<Rightarrow> Some feature)"

section \<open>Centroids and centers\<close>

record 'n LatLngLiteral =
  lat :: 'n
  lng :: 'n

type_synonym ring = "real LatLngLiteral list"

record RingCentroid =
  centroid :: "jsnum LatLngLiteral"
  area :: real

text \<open>The fallback of \<open>calculateRingCentroid\<close>: the mean of the points, with area \<open>0\<close>.\<close>

definition meanCentroid :: "ring \<Rightarrow> RingCentroid" where
  "meanCentroid ring =
     \<lparr>centroid = \<lparr>lat = js_div (fold (\<lambda>p sum. sum + lat p) ring 0) (real (length ring)),
                   lng = js_div (fold (\<lambda>p sum. sum + lng p) ring 0) (real (length ring))\<rparr>,
      area = 0\<rparr>"

text \<open>One round of the loop: the accumulators are \<open>signedArea\<close>, \<open>centroidLat\<close>, \<open>centroidLng\<close>.\<close>

definition centroidStep :: "ring \<Rightarrow> nat \<Rightarrow> real \<times> real \<times> real \<Rightarrow> real \<times> real \<times> real" where
  "centroidStep ring i acc =
     (case acc of (signedArea, centroidLat, centroidLng) \<Rightarrow>
        let current = ring ! i;
            next = ring ! ((i + 1) mod length ring);
            cross = lng current * lat next - lng next * lat current
        in (signedArea + cross,
            centroidLat + (lat current + lat next) * cross,
            centroidLng + (lng current + lng next) * cross))"

definition calculateRingCentroid :: "ring \<Rightarrow> RingCentroid" where
  "calculateRingCentroid ring =
     (if length ring < 3 then meanCentroid ring
      else
        (case fold (centroidStep ring) [0 ..< length ring] (0, 0, 0) of
           (signedArea0, centroidLat, centroidLng) \<Rightarrow>
             let signedArea = signedArea0 * (1 / 2);
                 area = \<bar>signedArea\<bar>
             in if area < 1 / 10 ^ 10 then meanCentroid ring
                else
                  let factor = js_div 1 (6 * signedArea)
                  in \<lparr>centroid = \<lparr>lat = js_mul centroidLat factor,
                                    lng = js_mul centroidLng factor\<rparr>,
                      area = area\<rparr>))"

definition centerStep ::
  "ring \<Rightarrow> jsnum LatLngLiteral \<times> real \<Rightarrow> jsnum LatLngLiteral \<times> real" where
  "centerStep ring acc =
     (case acc of (bestCentroid, maxArea) \<Rightarrow>
        let c = calculateRingCentroid ring
        in if maxArea < area c then (centroid c, area c) else (bestCentroid, maxArea))"

definition calculatePolygonCenter :: "ring list \<Rightarrow> jsnum LatLngLiteral" where
  "calculatePolygonCenter coordinates =
     (if length coordinates = 0 then \<lparr>lat = Fin 0, lng = Fin 0\<rparr>
      else fst (fold centerStep coordinates (\<lparr>lat = Fin 0, lng = Fin 0\<rparr>, - 1)))"

section \<open>Conversion of features to polygons\<close>

record FSAProperties =
  gml_id :: string
  CFSAUID :: string
  DGUID :: string
  PRUID :: string
  PRNAME :: string
  LANDAREA :: real

type_synonym FSAFeature = "FSAProperties Feature"

text \<open>
  The member \<open>coordinates\<close> of a converted polygon holds the rings of a polygon or the
  parts of a multipolygon.
\<close>

datatype coords = Rings "ring list" | Parts "ring list list"

record ConvertedPolygon =
  id' :: string
  fsaId :: string
  provinceId :: string
  provinceName :: string
  coordinates :: coords
  center :: "jsnum LatLngLiteral"
  isMultiPolygon :: bool

text \<open>Reading a member of \<open>undefined\<close> raises a \<open>TypeError\<close>.\<close>

datatype error = TypeError

definition convertCoordinate ::
  "(real \<Rightarrow> real \<Rightarrow> point) \<Rightarrow> real \<Rightarrow> real \<Rightarrow> real LatLngLiteral" where
  "convertCoordinate proj x y = (case proj x y of (lng', lat') \<Rightarrow> \<lparr>lat = lat', lng = lng'\<rparr>)"

definition convertPolygonCoordinates ::
  "(real \<Rightarrow> real \<Rightarrow> point) \<Rightarrow> point list list \<Rightarrow> ring list" where
  "convertPolygonCoordinates proj cs =
     map (\<lambda>ring. map (\<lambda>(x, y). convertCoordinate proj x y) ring) cs"

definition mkPolygon :: "FSAProperties \<Rightarrow> coords \<Rightarrow> jsnum LatLngLiteral \<Rightarrow> bool \<Rightarrow> ConvertedPolygon" where
  "mkPolygon props cs c multi =
     \<lparr>id' = gml_id props, fsaId = CFSAUID props, provinceId = PRUID props,
      provinceName = PRNAME props, coordinates = cs, center = c, isMultiPolygon = multi\<rparr>"

text \<open>
  \<open>convertFeatureToPolygon\<close>: a multipolygon takes its center from \<open>coordinates[0]\<close>,
  which is \<open>undefined\<close> when there is no part. Every other geometry is read as a
  polygon: the nesting of a \<open>MultiLineString\<close> fits that reading; a \<open>LineString\<close> or
  \<open>MultiPoint\<close> without positions gives a polygon without rings, and one with positions
  fails when a number is destructured as a pair; a \<open>Point\<close> has numbers and a
  \<open>GeometryCollection\<close> has \<open>undefined\<close> where the rings are expected.
\<close>

fun convertFeatureToPolygon ::
  "(real \<Rightarrow> real \<Rightarrow> point) \<Rightarrow> FSAFeature \<Rightarrow> error + ConvertedPolygon" where
  "convertFeatureToPolygon proj feature =
     (case geometry feature of
        MultiPolygon cs \<Rightarrow>
          (let coordinates = map (convertPolygonCoordinates proj) cs
           in case coordinates of
                [] \<Rightarrow> Inl TypeError
              | firstPolygonRings # _ \<Rightarrow>
                  Inr (mkPolygon (properties feature) (Parts coordinates)
                         (calculatePolygonCenter firstPolygonRings) True))
      | Polygon cs \<Rightarrow>
          (let coordinates = convertPolygonCoordinates proj cs
           in Inr (mkPolygon (properties feature) (Rings coordinates)
                     (calculatePolygonCenter coordinates) False))
      | MultiLineString cs \<Rightarrow>
          (let coordinates = convertPolygonCoordinates proj cs
           in Inr (mkPolygon (properties feature) (Rings coordinates)
                     (calculatePolygonCenter coordinates) False))
      | LineString ps \<Rightarrow>
          (if ps = [] then Inr (mkPolygon (properties feature) (Rings []) (calculatePolygonCenter []) False)
           else Inl TypeError)
      | MultiPoint ps \<Rightarrow>
          (if ps = [] then Inr (mkPolygon (properties feature) (Rings []) (calculatePolygonCenter []) False)
           else Inl TypeError)
      | _ \<Rightarrow> Inl TypeError)"

definition reorderRings :: "point list list \<Rightarrow> ring list" where
  "reorderRings polygon = map (\<lambda>ring. map (\<lambda>(lng', lat'). \<lparr>lat = lat', lng = lng'\<rparr>) ring) polygon"

text \<open>
  \<open>convertPreprocessedFeatures\<close>: the loop pushes one polygon for a \<open>MultiPolygon\<close> and
  one for a \<open>Polygon\<close>; it has no branch for any other geometry.
\<close>

fun convertPreprocessedFeatures :: "FSAFeature list \<Rightarrow> error + ConvertedPolygon list" where
  "convertPreprocessedFeatures [] = Inr []"
| "convertPreprocessedFeatures (feature # features) =
     (case geometry feature of
        MultiPolygon polygonCoords \<Rightarrow>
          (let coordinates = map reorderRings polygonCoords
           in case coordinates of
                [] \<Rightarrow> Inl TypeError
              | firstPolygonRings # _ \<Rightarrow>
                  map_sum (\<lambda>e. e)
                    (\<lambda>result. mkPolygon (properties feature) (Parts coordinates)
                       (calculatePolygonCenter firstPolygonRings) True # result)
                    (convertPreprocessedFeatures features))
      | Polygon polygonCoords \<Rightarrow>
          (let coordinates = reorderRings polygonCoords
           in map_sum (\<lambda>e. e)
                (\<lambda>result. mkPolygon (properties feature) (Rings coordinates)
                   (calculatePolygonCenter coordinates) False # result)
                (convertPreprocessedFeatures features))
      | _ \<Rightarrow> convertPreprocessedFeatures features)"

section \<open>Viewport culling\<close>

record PolygonBounds =
  north :: real
  south :: real
  east :: real
  west :: real

record PolygonWithBounds = ConvertedPolygon +
  bounds :: PolygonBounds

text \<open>
  \<open>calculatePolygonBounds\<close> reads \<open>coordinates\<close> as the parts of a multipolygon or as
  the rings of a polygon according to the flag \<open>isMultiPolygon\<close>. In the model the
  coordinates carry their nesting, and the flag is taken to agree with it
  (\<open>flagAgrees\<close>), as it does in every polygon that the two conversions build
  (\<open>converted_flagAgrees\<close> below).
\<close>

definition flagAgrees :: "ConvertedPolygon \<Rightarrow> bool" where
  "flagAgrees polygon =
     (case coordinates polygon of
        Parts _ \<Rightarrow> isMultiPolygon polygon
      | Rings _ \<Rightarrow> \<not> isMultiPolygon polygon)"

definition allPoints :: "ConvertedPolygon \<Rightarrow> real LatLngLiteral list" where
  "allPoints polygon =
     (case coordinates polygon of
        Parts multiCoords \<Rightarrow> concat (map concat multiCoords)
      | Rings polyCoords \<Rightarrow> concat polyCoords)"

definition boundsStep :: "real LatLngLiteral \<Rightarrow> PolygonBounds \<Rightarrow> PolygonBounds" where
  "boundsStep point b =
     \<lparr>north = max (north b) (lat point), south = min (south b) (lat point),
      east = max (east b) (lng point), west = min (west b) (lng point)\<rparr>"

definition calculatePolygonBounds :: "ConvertedPolygon \<Rightarrow> PolygonBounds" where
  "calculatePolygonBounds polygon =
     fold boundsStep (allPoints polygon) \<lparr>north = - 90, south = 90, east = - 180, west = 180\<rparr>"

definition boundsIntersect :: "PolygonBounds \<Rightarrow> PolygonBounds \<Rightarrow> bool" where
  "boundsIntersect a b =
     (if south a > north b \<or> north a < south b then False
      else if west a > east b \<or> east a < west b then False
      else True)"

definition polygonsWithBounds :: "ConvertedPolygon list \<Rightarrow> PolygonWithBounds list" where
  "polygonsWithBounds polygons =
     map (\<lambda>polygon. ConvertedPolygon.extend polygon
            (PolygonWithBounds.fields (calculatePolygonBounds polygon))) polygons"

text \<open>The state \<open>mapBounds\<close> is a rectangle or \<open>null\<close>.\<close>

definition visiblePolygons ::
  "PolygonBounds option \<Rightarrow> ConvertedPolygon list \<Rightarrow> PolygonWithBounds list" where
  "visiblePolygons mapBounds polygons =
     (case mapBounds of
        Some b \<Rightarrow> filter (\<lambda>p. boundsIntersect (bounds p) b) (polygonsWithBounds polygons)
      | None \<Rightarrow> polygonsWithBounds polygons)"

section \<open>Convex hull\<close>

text \<open>
  \<open>crossProduct(o, a, b)\<close>: the coordinates are doubles, and each of the four
  differences, the two products and the final difference is rounded.
\<close>

definition crossProduct ::
  "real LatLngLiteral \<Rightarrow> real LatLngLiteral \<Rightarrow> real LatLngLiteral \<Rightarrow> jsnum" where
  "crossProduct o' a b =
     js_sub
       (js_times (js_sub (Fin (lat a)) (Fin (lat o'))) (js_sub (Fin (lng b)) (Fin (lng o'))))
       (js_times (js_sub (Fin (lng a)) (Fin (lng o'))) (js_sub (Fin (lat b)) (Fin (lat o'))))"

text \<open>
  The comparator of the sort: negative when \<open>a\<close> comes first. It orders by \<open>lat\<close>, then
  by \<open>lng\<close>; the rounded difference of two doubles has the sign of their exact
  difference, so the sort is modelled as a stable sort by the key \<open>(lat, lng)\<close> in the
  lexicographic order (\<open>compareLatLng_sortKey\<close> below).
\<close>

definition compareLatLng :: "real LatLngLiteral \<Rightarrow> real LatLngLiteral \<Rightarrow> real" where
  "compareLatLng a b = (if lat a = lat b then lng a - lng b else lat a - lat b)"

definition sortKey :: "real LatLngLiteral \<Rightarrow> real \<times> real" where
  "sortKey p = (lat p, lng p)"

text \<open>
  The stack of a chain is kept with its top first. \<open>hullPop\<close> is the inner loop, which
  pops while the cross product of the two topmost points and \<open>p\<close> is \<open><= 0\<close>;
  \<open>hullPush\<close> is one round of the outer loop.
\<close>

fun hullPop :: "real LatLngLiteral \<Rightarrow> real LatLngLiteral list \<Rightarrow> real LatLngLiteral list" where
  "hullPop p (b # a # st) =
     (if js_le (crossProduct a b p) (Fin 0) then hullPop p (a # st) else b # a # st)"
| "hullPop p st = st"

definition hullPush :: "real LatLngLiteral \<Rightarrow> real LatLngLiteral list \<Rightarrow> real LatLngLiteral list" where
  "hullPush p st = p # hullPop p st"

definition buildChain :: "real LatLngLiteral list \<Rightarrow> real LatLngLiteral list" where
  "buildChain ps = rev (fold hullPush ps [])"

definition calculateConvexHull :: "real LatLngLiteral list \<Rightarrow> real LatLngLiteral list" where
  "calculateConvexHull points =
     (if length points < 3 then points
      else
        let sortedPoints = sort_key sortKey points;
            lower = buildChain sortedPoints;
            upper = buildChain (rev sortedPoints)
        in butlast lower @ upper)"

section \<open>The convex hull in exact arithmetic\<close>

text \<open>
  The same algorithm with the cross product computed without rounding: the reference
  that the program is compared with. The program agrees with it on every list of points
  whose rounded cross products have the sign of the exact ones (\<open>signsAgree\<close>).
\<close>

type_synonym LatLng = "real LatLngLiteral"

definition exactCross :: "LatLng \<Rightarrow> LatLng \<Rightarrow> LatLng \<Rightarrow> real" where
  "exactCross o' a b = (lat a - lat o') * (lng b - lng o') - (lng a - lng o') * (lat b - lat o')"

fun exactPop :: "LatLng \<Rightarrow> LatLng list \<Rightarrow> LatLng list" where
  "exactPop p (b # a # st) =
     (if exactCross a b p \<le> 0 then exactPop p (a # st) else b # a # st)"
| "exactPop p st = st"

definition exactPush :: "LatLng \<Rightarrow> LatLng list \<Rightarrow> LatLng list" where
  "exactPush p st = p # exactPop p st"

definition exactChain :: "LatLng list \<Rightarrow> LatLng list" where
  "exactChain ps = rev (fold exactPush ps [])"

definition exactHull :: "LatLng list \<Rightarrow> LatLng list" where
  "exactHull points =
     (if length points < 3 then points
      else
        let sortedPoints = sort_key sortKey points;
            lower = exactChain sortedPoints;
            upper = exactChain (rev sortedPoints)
        in butlast lower @ upper)"

definition signsAgree :: "LatLng list \<Rightarrow> bool" where
  "signsAgree S \<longleftrightarrow>
     (\<forall>o'\<in>set S. \<forall>a\<in>set S. \<forall>b\<in>set S.
        js_le (crossProduct o' a b) (Fin 0) = (exactCross o' a b \<le> 0))"

subsection \<open>Notions for its properties\<close>

text \<open>
  A stack (top first) makes only left turns when every three successive points of the
  chain turn strictly left; a point is left of a stack when it is on or left of every
  edge of the chain; a stack is sorted when the keys of the sort descend from its top.
\<close>

fun stackTurns :: "LatLng list \<Rightarrow> bool" where
  "stackTurns (c # b # a # st) = (0 < exactCross a b c \<and> stackTurns (b # a # st))"
| "stackTurns _ = True"

fun stackLeft :: "LatLng list \<Rightarrow> LatLng \<Rightarrow> bool" where
  "stackLeft (b # a # st) q = (0 \<le> exactCross a b q \<and> stackLeft (a # st) q)"
| "stackLeft _ q = True"

definition stackSorted :: "LatLng list \<Rightarrow> bool" where
  "stackSorted st = sorted_wrt (\<lambda>b a. sortKey a \<le> sortKey b) st"

text \<open>
  The invariant of a chain's stack for the set \<open>Q\<close> of the points pushed so far: the
  bottom is the least and the top the greatest point of \<open>Q\<close>, the stack is sorted and
  turns left, and every point of \<open>Q\<close> is left of it.
\<close>

definition chainInv :: "LatLng set \<Rightarrow> LatLng list \<Rightarrow> bool" where
  "chainInv Q st \<longleftrightarrow>
     st \<noteq> [] \<and> set st \<subseteq> Q
     \<and> (\<forall>q\<in>Q. sortKey (last st) \<le> sortKey q)
     \<and> (\<forall>q\<in>Q. sortKey q \<le> sortKey (hd st))
     \<and> stackSorted st \<and> stackTurns st \<and> (\<forall>q\<in>Q. stackLeft st q)"

definition negPoint :: "LatLng \<Rightarrow> LatLng" where
  "negPoint p = \<lparr>lat = - lat p, lng = - lng p\<rparr>"

text \<open>The two stacks of \<open>exactHull\<close> after their loops.\<close>

definition lowerStack :: "LatLng list \<Rightarrow> LatLng list" where
  "lowerStack S = fold exactPush (sort_key sortKey S) []"

definition upperStack :: "LatLng list \<Rightarrow> LatLng list" where
  "upperStack S = fold exactPush (rev (sort_key sortKey S)) []"

text \<open>
  The polygon formed by a list of points has an edge from each point to the next and
  from the last point back to the first. A point lies on or inside the polygon of a
  hull, whose edges turn left, when it is on or left of every edge, and between two
  points of the list in the order of the sort (which says, for a polygon whose points
  all lie on one line, that the point is on the segment they span).
\<close>

definition polygonEdges :: "LatLng list \<Rightarrow> (LatLng \<times> LatLng) list" where
  "polygonEdges hs = zip hs (rotate1 hs)"

definition onOrInside :: "LatLng list \<Rightarrow> LatLng \<Rightarrow> bool" where
  "onOrInside hs p \<longleftrightarrow>
     (\<forall>(u, v)\<in>set (polygonEdges hs). 0 \<le> exactCross u v p)
     \<and> (\<exists>u\<in>set hs. sortKey u \<le> sortKey p) \<and> (\<exists>v\<in>set hs. sortKey p \<le> sortKey v)"

text \<open>A point is left of a path (first point first) when it is on or left of each edge.\<close>

fun pathLeft :: "LatLng list \<Rightarrow> LatLng \<Rightarrow> bool" where
  "pathLeft (a # b # r) q = (0 \<le> exactCross a b q \<and> pathLeft (b # r) q)"
| "pathLeft _ q = True"

section \<open>Example inputs\<close>

definition fsaProps :: FSAProperties where
  "fsaProps = \<lparr>gml_id = ''g'', CFSAUID = ''A0A'', DGUID = ''d'', PRUID = ''10'',
       PRNAME = ''NL'', LANDAREA = 1\<rparr>"

text \<open>A feature whose geometry is a point.\<close>

definition pointFeature :: FSAFeature where
  "pointFeature = \<lparr>properties = fsaProps, geometry = Point (0, 0)\<rparr>"


text \<open>
  The doubles of the decimal literals \<open>0.6\<close>, \<open>0.4\<close>, \<open>1.2\<close>, \<open>0.8\<close>, \<open>1.8\<close>, \<open>4.2\<close>
  and \<open>2.8\<close> (\<open>decimal_literals\<close> below), as the points \<open>(0.6, 0.4)\<close>, \<open>(1.2, 0.8)\<close>,
  \<open>(1.8, 1.2)\<close> and \<open>(4.2, 2.8)\<close>, and a list of the four.
\<close>

definition p06 :: LatLng where
  "p06 = \<lparr>lat = 5404319552844595 / 2 ^ 53, lng = 3602879701896397 / 2 ^ 53\<rparr>"

definition p12 :: LatLng where
  "p12 = \<lparr>lat = 5404319552844595 / 2 ^ 52, lng = 3602879701896397 / 2 ^ 52\<rparr>"

definition p18 :: LatLng where
  "p18 = \<lparr>lat = 8106479329266893 / 2 ^ 52, lng = 5404319552844595 / 2 ^ 52\<rparr>"

definition p42 :: LatLng where
  "p42 = \<lparr>lat = 4728779608739021 / 2 ^ 50, lng = 3152519739159347 / 2 ^ 50\<rparr>"

definition hullInput :: "LatLng list" where
  "hullInput = [p18, p42, p06, p12]"

section \<open>Properties of the line simplifier\<close>

text \<open>
  The index found by the loop is \<open>0\<close> with distance \<open>0\<close> (no interior point was
  farther than \<open>0\<close>), or it is the index of an interior point.
\<close>

lemma maxStep_fold_inv:
  assumes "\<forall>i \<in> set is. 1 \<le> i \<and> i < n"
    and "(fst acc = Fin 0 \<and> snd acc = 0) \<or> (1 \<le> snd acc \<and> snd acc < n)"
  shows "(fst (fold (maxStep ps) is acc) = Fin 0 \<and> snd (fold (maxStep ps) is acc) = 0)
       \<or> (1 \<le> snd (fold (maxStep ps) is acc) \<and> snd (fold (maxStep ps) is acc) < n)"
  using assms
proof (induction "is" arbitrary: acc)
  case Nil
  then show ?case by simp
next
  case (Cons i "is")
  have "(fst (maxStep ps i acc) = Fin 0 \<and> snd (maxStep ps i acc) = 0)
       \<or> (1 \<le> snd (maxStep ps i acc) \<and> snd (maxStep ps i acc) < n)"
    using Cons.prems by (auto simp: maxStep_def Let_def)
  with Cons.IH [of "maxStep ps i acc"] Cons.prems(1) show ?case by simp
qed

lemma maxDistanceIndex_range:
  "(fst (maxDistanceIndex ps) = Fin 0 \<and> snd (maxDistanceIndex ps) = 0)
   \<or> (1 \<le> snd (maxDistanceIndex ps) \<and> snd (maxDistanceIndex ps) < length ps - 1)"
  unfolding maxDistanceIndex_def
  by (rule maxStep_fold_inv) auto

lemma maxDistanceIndex_split:
  assumes "js_gt (fst (maxDistanceIndex ps)) (Fin t)" and "0 \<le> t"
  shows "1 \<le> snd (maxDistanceIndex ps) \<and> snd (maxDistanceIndex ps) < length ps - 1"
  using maxDistanceIndex_range [of ps] assms by auto

lemma endpoints_subseq:
  assumes "2 \<le> length ps"
  shows "subseq [hd ps, last ps] ps"
proof -
  from assms obtain a qs where ps: "ps = a # qs" and "qs \<noteq> []"
    by (cases ps) (auto simp: Suc_le_eq)
  then obtain rs b where qs: "qs = rs @ [b]"
    by (metis rev_exhaust)
  have "subseq ([a] @ [] @ [b]) ([a] @ rs @ [b])"
    by (intro list_emb_append_mono subseq_order.order_refl) simp
  then show ?thesis using ps qs by simp
qed


text \<open>
  With a tolerance that is not negative the recursion ends, since both slices are
  shorter than the chain; the result keeps the order of the input and its two end
  points.
\<close>

lemma simplifyLine_total:
  assumes "0 \<le> t"
  shows "\<exists>r. simplifyLine ps t = Some r \<and> subseq r ps \<and> length r \<le> length ps
           \<and> (ps \<noteq> [] \<longrightarrow> r \<noteq> [] \<and> hd r = hd ps \<and> last r = last ps)"
proof (induction ps rule: length_induct)
  case (1 ps)
  show ?case
  proof (cases "length ps \<le> 2")
    case True
    then show ?thesis by (subst simplifyLine.simps) simp
  next
    case long: False
    show ?thesis
    proof (cases "js_gt (fst (maxDistanceIndex ps)) (Fin t)")
      case False
      have "simplifyLine ps t = Some [hd ps, last ps]"
        using long False by (subst simplifyLine.simps) simp
      moreover have "subseq [hd ps, last ps] ps"
        using long by (intro endpoints_subseq) simp
      ultimately show ?thesis using long by simp
    next
      case True
      define k where "k = snd (maxDistanceIndex ps)"
      have k: "1 \<le> k" "k < length ps - 1"
        using maxDistanceIndex_split [OF True assms] by (simp_all add: k_def)
      have tk: "take (k + 1) ps = take k ps @ [ps ! k]"
        using k by (simp add: take_Suc_conv_app_nth)
      have dk: "drop k ps = ps ! k # drop (Suc k) ps"
        using k by (simp add: Cons_nth_drop_Suc)
      have "length (take (k + 1) ps) < length ps" using k by simp
      with 1 obtain l where l: "simplifyLine (take (k + 1) ps) t = Some l"
        "subseq l (take (k + 1) ps)" "length l \<le> length (take (k + 1) ps)"
        "l \<noteq> []" "hd l = hd (take (k + 1) ps)" "last l = last (take (k + 1) ps)"
        by (metis tk snoc_eq_iff_butlast)
      have "length (drop k ps) < length ps" using k by simp
      with 1 obtain r where r: "simplifyLine (drop k ps) t = Some r"
        "subseq r (drop k ps)" "length r \<le> length (drop k ps)"
        "r \<noteq> []" "hd r = hd (drop k ps)" "last r = last (drop k ps)"
        by (metis dk list.distinct(1))
      have res: "simplifyLine ps t = Some (butlast l @ r)"
        using long True l(1) r(1) by (subst simplifyLine.simps) (simp add: k_def)
      have ll: "l = butlast l @ [ps ! k]"
        using l(4,6) tk by (metis append_butlast_last_id last_snoc)
      have "subseq (butlast l @ [ps ! k]) (take k ps @ [ps ! k])"
        using l(2) ll tk by simp
      then have "subseq (butlast l) (take k ps)"
        by (simp only: subseq_append)
      then have "subseq (butlast l @ r) (take k ps @ drop k ps)"
        using r(2) by (rule list_emb_append_mono)
      then have s1: "subseq (butlast l @ r) ps" by simp
      have s2: "length (butlast l @ r) \<le> length ps"
        using l(3) r(3) k by simp
      have hr: "hd r = ps ! k" using r(5) dk by simp
      have hl: "hd l = hd ps" using l(5) k by (cases ps) auto
      have s3: "hd (butlast l @ r) = hd ps"
      proof (cases "butlast l = []")
        case True
        then have "l = [ps ! k]" using ll by simp
        then show ?thesis using True hr hl by simp
      next
        case False
        then have "hd (butlast l @ r) = hd (butlast l @ [ps ! k])" by simp
        then show ?thesis using ll hl by simp
      qed
      have s4: "last (butlast l @ r) = last ps"
        using r(4,6) k by simp
      show ?thesis using res s1 s2 s3 s4 r(4) by simp
    qed
  qed
qed


lemma simplifyLine_collinear_zero:
  "simplifyLine [(0, 0), (1, 0), (2, 0)] 0 = Some [(0, 0), (2, 0)]"
  by (subst simplifyLine.simps) (simp add: maxDistanceIndex_def maxStep_def)

text \<open>
  C3, as stated, at the chain \<open>(0,0), (1,0), (2,0)\<close> with tolerance \<open>-1\<close>: no interior
  point is farther than \<open>0\<close> from the segment, the index stays \<open>0\<close>, and since \<open>0 > -1\<close>
  the function calls itself on \<open>points.slice(0)\<close>, the same chain, without end. It has
  no result.
\<close>

theorem simplifyLine_negative_tolerance_diverges: "simplifyLine [(0,0),(1,0),(2,0)] (-1) = None"
proof (rule ccontr)
  assume "simplifyLine [(0,0),(1,0),(2,0)] (-1) \<noteq> None"
  then obtain y where y: "simplifyLine [(0,0),(1,0),(2,0)] (-1) = Some y" by auto
  have m: "maxDistanceIndex [(0,0),(1,0),(2,0)] = (Fin 0, 0)"
    by (simp add: maxDistanceIndex_def maxStep_def)
  have "\<not> ([(0,0),(1,0),(2,0)] = [(0,0),(1,0),(2::real,0::real)] \<and> (-1::real) = -1)"
  proof (rule simplifyLine.raw_induct
      [where P = "\<lambda>ps t r. \<not> (ps = [(0,0),(1,0),(2,0)] \<and> t = -1)", OF _ y])
    fix f ps t r
    assume IH: "\<And>qs u z. f qs u = Some z \<Longrightarrow> \<not> (qs = [(0,0),(1,0),(2,0)] \<and> u = -1)"
      and step: "(if length ps \<le> 2 then Some ps
      else if js_gt (fst (maxDistanceIndex ps)) (Fin t) then
        Option.bind (f (take (snd (maxDistanceIndex ps) + 1) ps) t)
          (\<lambda>left. Option.bind (f (drop (snd (maxDistanceIndex ps)) ps) t)
            (\<lambda>right. Some (butlast left @ right)))
      else Some [hd ps, last ps]) = Some r"
    show "\<not> (ps = [(0,0),(1,0),(2,0)] \<and> t = -1)"
    proof
      assume a: "ps = [(0,0),(1,0),(2,0)] \<and> t = -1"
      with step obtain z where "f [(0,0),(1,0),(2,0)] (-1) = Some z"
        by (auto simp: m Option.bind_eq_Some_conv)
      with IH show False by blast
    qed
  qed
  then show False by simp
qed


text \<open>
  C3, amended: for every polyline \<open>P\<close> and every tolerance \<open>t \<ge> 0\<close>, \<open>simplifyLine(P, t)\<close>
  returns a subsequence of \<open>P\<close> that is no longer than \<open>P\<close> and, when \<open>P\<close> is not empty,
  starts with the first point of \<open>P\<close> and ends with its last point.
\<close>

theorem simplifyLine_subsequence:
  assumes "0 \<le> t"
  shows "\<exists>r. simplifyLine P t = Some r \<and> subseq r P \<and> length r \<le> length P
           \<and> (P \<noteq> [] \<longrightarrow> hd r = hd P \<and> last r = last P \<and> hd P \<in> set r \<and> last P \<in> set r)"
proof -
  from simplifyLine_total [OF assms, of P] obtain r where r: "simplifyLine P t = Some r"
    "subseq r P" "length r \<le> length P"
    "P \<noteq> [] \<longrightarrow> r \<noteq> [] \<and> hd r = hd P \<and> last r = last P"
    by blast
  have "P \<noteq> [] \<longrightarrow> hd P \<in> set r \<and> last P \<in> set r"
    using r(4) by (metis hd_in_set last_in_set)
  with r show ?thesis by blast
qed

theorem simplifyLine_subsequence_witness:
  "(0::real) \<le> 0 \<and> (\<exists>r. simplifyLine [(0, 0), (1, 0), (2, 0)] 0 = Some r
      \<and> subseq r [(0, 0), (1, 0), (2, 0)] \<and> length r \<le> 3
      \<and> hd r = (0, 0) \<and> last r = (2, 0) \<and> (0, 0) \<in> set r \<and> (2, 0) \<in> set r)"
  using simplifyLine_subsequence [of 0 "[(0, 0), (1, 0), (2, 0)]"]
  by (simp add: numeral_3_eq_3)

section \<open>Properties of the ring processor\<close>

text \<open>
  C4: for every ring and every tolerance \<open>t \<le> 0\<close>, \<open>processRing\<close> does not call the
  simplifier: its result is the input ring, point by point and in the same order, each
  point reprojected. At tolerance \<open>0\<close> it keeps the middle one of three collinear points,
  which \<open>simplifyLine\<close> itself drops at that tolerance.
\<close>

theorem processRing_skips_simplifier:
  assumes "t \<le> 0"
  shows "processRing proj ring t = Some (map (\<lambda>(x, y). convertCoord proj x y) ring)
       \<and> map_option length (processRing proj ring t) = Some (length ring)
       \<and> processRing proj [(0, 0), (1, 0), (2, 0)] 0
           = Some [convertCoord proj 0 0, convertCoord proj 1 0, convertCoord proj 2 0]
       \<and> simplifyLine [(0, 0), (1, 0), (2, 0)] 0 = Some [(0, 0), (2, 0)]"
  using assms by (simp add: processRing_def simplifyLine_collinear_zero)

theorem processRing_skips_simplifier_witness:
  "(- 5::real) \<le> 0 \<and> processRing (\<lambda>x y. (x + 1, y + 2)) [(0, 0), (1, 0), (2, 0)] (- 5)
      = Some [(1, 2), (2, 2), (3, 2)]"
  using processRing_skips_simplifier [of "- 5" "\<lambda>x y. (x + 1, y + 2)" "[(0, 0), (1, 0), (2, 0)]"]
  by (simp add: convertCoord_def)


section \<open>Unsupported geometries\<close>

lemma convertPreprocessedFeatures_skip:
  "\<not> supported (geometry f) \<Longrightarrow>
     convertPreprocessedFeatures (f # fs) = convertPreprocessedFeatures fs"
  by (cases "geometry f") simp_all

lemma convertPreprocessedFeatures_filter:
  "convertPreprocessedFeatures fs
     = convertPreprocessedFeatures (filter (\<lambda>f. supported (geometry f)) fs)"
proof (induction fs)
  case Nil
  then show ?case by simp
next
  case (Cons f fs)
  show ?case
  proof (cases "supported (geometry f)")
    case False
    then show ?thesis using Cons
      by (simp add: convertPreprocessedFeatures_skip del: convertPreprocessedFeatures.simps)
  next
    case True
    then show ?thesis using Cons
      by (cases "geometry f") (simp_all add: Let_def split: list.splits)
  qed
qed

lemma convertPreprocessedFeatures_length:
  "convertPreprocessedFeatures fs = Inr out \<Longrightarrow>
     length out = length (filter (\<lambda>f. supported (geometry f)) fs)"
proof (induction fs arbitrary: out)
  case Nil
  then show ?case by simp
next
  case (Cons f fs)
  show ?case
  proof (cases "geometry f")
    case (Polygon cs)
    with Cons.prems obtain r where
      "convertPreprocessedFeatures fs = Inr r" "length out = Suc (length r)"
      by (cases "convertPreprocessedFeatures fs") (auto simp: Let_def)
    with Cons.IH Polygon show ?thesis by simp
  next
    case (MultiPolygon cs)
    with Cons.prems obtain r where
      "convertPreprocessedFeatures fs = Inr r" "length out = Suc (length r)"
      by (cases "convertPreprocessedFeatures fs") (auto simp: Let_def split: list.splits)
    with Cons.IH MultiPolygon show ?thesis by simp
  qed (use Cons in simp_all)
qed

text \<open>
  C1, as stated, at a collection of one feature whose geometry is a point: the fast
  path \<open>convertPreprocessedFeatures\<close> returns the empty list, not a list of one entry.
\<close>

theorem convertPreprocessedFeatures_omits_point:
  "convertPreprocessedFeatures [pointFeature] = Inr []"
  by (simp add: pointFeature_def)

text \<open>
  C1, amended: for every feature whose geometry is neither a polygon nor a multipolygon,
  \<open>processFeature\<close> returns the feature unchanged, and \<open>convertPreprocessedFeatures\<close>
  skips it: the feature leaves no entry in the output, which has one entry per polygon
  or multipolygon feature of the input.
\<close>

theorem unsupported_geometry:
  assumes "\<not> supported (geometry f)"
  shows "processFeature proj f t = Some f
       \<and> convertPreprocessedFeatures (fs @ f # gs) = convertPreprocessedFeatures (fs @ gs)
       \<and> (\<forall>out. convertPreprocessedFeatures hs = Inr out \<longrightarrow>
            length out = length (filter (\<lambda>h. supported (geometry h)) hs))"
proof -
  have "processFeature proj f t = Some f"
    using assms by (cases "geometry f") simp_all
  moreover have "convertPreprocessedFeatures (fs @ f # gs) = convertPreprocessedFeatures (fs @ gs)"
    using assms
    by (subst convertPreprocessedFeatures_filter, subst (2) convertPreprocessedFeatures_filter) simp
  ultimately show ?thesis using convertPreprocessedFeatures_length by blast
qed

theorem unsupported_geometry_witness:
  "\<not> supported (geometry pointFeature)
     \<and> processFeature (\<lambda>x y. (x, y)) pointFeature 50 = Some pointFeature
     \<and> convertPreprocessedFeatures [pointFeature, pointFeature] = Inr []"
  using unsupported_geometry [of pointFeature "\<lambda>x y. (x, y)" 50 "[]" "[pointFeature]" "[]"]
  by (simp add: pointFeature_def)

section \<open>Viewport culling\<close>

lemma convertPreprocessedFeatures_flagAgrees:
  "convertPreprocessedFeatures fs = Inr out \<Longrightarrow> c \<in> set out \<Longrightarrow> flagAgrees c"
proof (induction fs arbitrary: out)
  case Nil
  then show ?case by simp
next
  case (Cons f fs)
  show ?case
  proof (cases "convertPreprocessedFeatures fs")
    case (Inl e)
    then show ?thesis using Cons.prems
      by (cases "geometry f") (auto simp: Let_def split: list.splits)
  next
    case (Inr r)
    then show ?thesis using Cons.prems Cons.IH [OF Inr]
      by (cases "geometry f") (auto simp: Let_def flagAgrees_def mkPolygon_def split: list.splits)
  qed
qed

lemma converted_flagAgrees:
  "convertFeatureToPolygon proj f = Inr c \<Longrightarrow> flagAgrees c"
  "convertPreprocessedFeatures fs = Inr out \<Longrightarrow> \<forall>c\<in>set out. flagAgrees c"
proof -
  show "convertFeatureToPolygon proj f = Inr c \<Longrightarrow> flagAgrees c"
    by (cases "geometry f")
      (auto simp: Let_def flagAgrees_def mkPolygon_def split: list.splits if_splits)
  show "convertPreprocessedFeatures fs = Inr out \<Longrightarrow> \<forall>c\<in>set out. flagAgrees c"
    using convertPreprocessedFeatures_flagAgrees by blast
qed

text \<open>
  C2: when the viewport bounds are \<open>null\<close>, the filter returns the whole list
  \<open>polygonsWithBounds\<close>, which has one entry per polygon, each polygon with its bounds
  added; the polygons are filtered by \<open>boundsIntersect\<close> only when a rectangle is present.
\<close>

theorem visiblePolygons_without_viewport:
  "visiblePolygons None polygons = polygonsWithBounds polygons
   \<and> length (visiblePolygons None polygons) = length polygons
   \<and> map ConvertedPolygon.truncate (visiblePolygons None polygons) = polygons
   \<and> visiblePolygons (Some b) polygons
       = filter (\<lambda>p. boundsIntersect (bounds p) b) (polygonsWithBounds polygons)"
  by (auto simp: visiblePolygons_def polygonsWithBounds_def o_def
      ConvertedPolygon.truncate_def ConvertedPolygon.extend_def intro!: map_idI)

text \<open>
  C6: \<open>boundsIntersect(a, b)\<close> is false exactly when \<open>a.south > b.north\<close> or
  \<open>a.north < b.south\<close> or \<open>a.west > b.east\<close> or \<open>a.east < b.west\<close>, and it is symmetric.
\<close>

theorem boundsIntersect_symmetric:
  "(\<not> boundsIntersect a b)
     = (south a > north b \<or> north a < south b \<or> west a > east b \<or> east a < west b)
   \<and> boundsIntersect a b = boundsIntersect b a"
  by (auto simp: boundsIntersect_def)

section \<open>Centroids\<close>

text \<open>
  C8: for the square ring \<open>(0,0), (0,10), (10,10), (10,0)\<close>, read with either coordinate
  as the latitude, \<open>calculateRingCentroid\<close> returns the centroid \<open>(5,5)\<close> and the area
  \<open>100\<close>.
\<close>

theorem square_centroid:
  "calculateRingCentroid
     [\<lparr>lat = 0, lng = 0\<rparr>, \<lparr>lat = 0, lng = 10\<rparr>, \<lparr>lat = 10, lng = 10\<rparr>, \<lparr>lat = 10, lng = 0\<rparr>]
     = \<lparr>centroid = \<lparr>lat = Fin 5, lng = Fin 5\<rparr>, area = 100\<rparr>
   \<and> calculateRingCentroid
     [\<lparr>lat = 0, lng = 0\<rparr>, \<lparr>lat = 10, lng = 0\<rparr>, \<lparr>lat = 10, lng = 10\<rparr>, \<lparr>lat = 0, lng = 10\<rparr>]
     = \<lparr>centroid = \<lparr>lat = Fin 5, lng = Fin 5\<rparr>, area = 100\<rparr>"
  by (simp add: calculateRingCentroid_def centroidStep_def upt_rec Let_def)

text \<open>
  The guards of the divisions: \<open>perpendicularDistance\<close> divides by the length of a
  segment that is not a single point, and for a ring that is not empty
  \<open>calculateRingCentroid\<close> divides by a positive count or by a signed area of magnitude
  at least \<open>1e-10\<close>.
\<close>

lemma perpendicularDistance_finite: "is_finite (perpendicularDistance p a b)"
proof -
  obtain x y x1 y1 x2 y2 where "p = (x, y)" "a = (x1, y1)" "b = (x2, y2)"
    by (cases p, cases a, cases b) auto
  moreover have "sqrt ((x2 - x1)\<^sup>2 + (y2 - y1)\<^sup>2) \<noteq> 0" if "\<not> (x2 - x1 = 0 \<and> y2 - y1 = 0)"
    using that by (simp add: sum_power2_eq_zero_iff)
  ultimately show ?thesis by (auto simp: Let_def)
qed

lemma fold_sum: "fold (\<lambda>p sum. sum + f p) ring (s::real) = s + sum_list (map f ring)"
  by (induction ring arbitrary: s) simp_all

lemma meanCentroid_nonempty:
  assumes "ring \<noteq> []"
  shows "meanCentroid ring
    = \<lparr>centroid = \<lparr>lat = Fin (sum_list (map lat ring) / real (length ring)),
                  lng = Fin (sum_list (map lng ring) / real (length ring))\<rparr>, area = 0\<rparr>"
  using assms by (simp add: meanCentroid_def fold_sum)

lemma calculateRingCentroid_finite:
  assumes "ring \<noteq> []"
  shows "is_finite (lat (centroid (calculateRingCentroid ring)))
       \<and> is_finite (lng (centroid (calculateRingCentroid ring)))"
proof -
  obtain s cl cg where f: "fold (centroidStep ring) [0 ..< length ring] (0, 0, 0) = (s, cl, cg)"
    by (metis prod_cases3)
  show ?thesis
    using assms f by (auto simp: calculateRingCentroid_def meanCentroid_nonempty Let_def)
qed

lemma calculateRingCentroid_degenerate:
  assumes "ring \<noteq> []" "length ring < 3"
  shows "calculateRingCentroid ring
    = \<lparr>centroid = \<lparr>lat = Fin (sum_list (map lat ring) / real (length ring)),
                  lng = Fin (sum_list (map lng ring) / real (length ring))\<rparr>, area = 0\<rparr>"
  using assms by (simp add: calculateRingCentroid_def meanCentroid_nonempty)

text \<open>
  C5 at the empty ring: the fallback for rings of fewer than three points divides the
  sum \<open>0\<close> by the length \<open>0\<close>. The centroid is \<open>NaN\<close> in both coordinates, and it becomes
  the center of a polygon whose only ring is empty.
\<close>

theorem empty_ring_centroid_nan:
  "calculateRingCentroid [] = \<lparr>centroid = \<lparr>lat = NaN, lng = NaN\<rparr>, area = 0\<rparr>
   \<and> calculatePolygonCenter [[]] = \<lparr>lat = NaN, lng = NaN\<rparr>"
  by (simp add: calculateRingCentroid_def meanCentroid_def calculatePolygonCenter_def
      centerStep_def)



section \<open>Properties of the convex hull in exact arithmetic\<close>

subsection \<open>Cross products of ordered points\<close>

text \<open>
  The facts about \<open>exactCross\<close> that the chains rest on, first for vectors given by
  their two components: a vector is not before the origin in the order of the sort when
  its first component is positive, or zero with a second component that is not negative.
\<close>

lemma nonneg_factor: fixes x d :: real assumes "0 \<le> x * d" "0 < d" shows "0 \<le> x"
  using assms by (simp add: zero_le_mult_iff)

lemma vec_push_left:
  fixes d1 d2 v1 v2 u1 u2 :: real
  assumes d: "0 < d1 \<or> (d1 = 0 \<and> 0 \<le> d2)"
    and v: "0 < v1 \<or> (v1 = 0 \<and> 0 \<le> v2)"
    and u: "u1 < 0 \<or> (u1 = 0 \<and> u2 \<le> 0)"
    and du: "0 \<le> d1 * u2 - d2 * u1"
    and dv: "0 < d1 * v2 - d2 * v1"
  shows "0 \<le> v1 * u2 - v2 * u1"
proof (cases "0 < d1")
  case True
  have id: "(v1 * u2 - v2 * u1) * d1 = (d1 * u2 - d2 * u1) * v1 + (d1 * v2 - d2 * v1) * (- u1)"
    by (simp add: algebra_simps)
  have "0 \<le> (d1 * u2 - d2 * u1) * v1" using du v by (intro mult_nonneg_nonneg) auto
  moreover have "0 \<le> (d1 * v2 - d2 * v1) * (- u1)" using dv u by (intro mult_nonneg_nonneg) auto
  ultimately have "0 \<le> (v1 * u2 - v2 * u1) * d1" using id by linarith
  then show ?thesis using True by (rule nonneg_factor)
next
  case False
  then have d0: "d1 = 0" "0 \<le> d2" using d by auto
  have "0 \<le> d2 * v1" using d0 v by (intro mult_nonneg_nonneg) auto
  then show ?thesis using dv d0 by simp
qed

lemma vec_chain_left:
  fixes a1 a2 c1 c2 p1 p2 :: real
  assumes a: "a1 < 0 \<or> (a1 = 0 \<and> a2 \<le> 0)"
    and c: "0 < c1 \<or> (c1 = 0 \<and> 0 \<le> c2)"
    and pc: "c1 < p1 \<or> (c1 = p1 \<and> c2 \<le> p2)"
    and ca: "0 < c1 * a2 - c2 * a1"
    and cp: "0 \<le> c1 * p2 - c2 * p1"
  shows "0 \<le> p1 * a2 - p2 * a1"
proof (cases "0 < c1")
  case True
  have id: "(p1 * a2 - p2 * a1) * c1 = (c1 * a2 - c2 * a1) * p1 + (c1 * p2 - c2 * p1) * (- a1)"
    by (simp add: algebra_simps)
  have "0 \<le> p1" using True pc by auto
  then have "0 \<le> (c1 * a2 - c2 * a1) * p1" using ca by (intro mult_nonneg_nonneg) auto
  moreover have "0 \<le> (c1 * p2 - c2 * p1) * (- a1)" using cp a by (intro mult_nonneg_nonneg) auto
  ultimately have "0 \<le> (p1 * a2 - p2 * a1) * c1" using id by linarith
  then show ?thesis using True by (rule nonneg_factor)
next
  case False
  then have c0: "c1 = 0" "0 \<le> c2" using c by auto
  have ca': "0 < c2 * (- a1)" using ca c0 by simp
  then have "c2 \<noteq> 0" and "a1 \<noteq> 0" by auto
  then have c2pos: "0 < c2" and a1neg: "a1 < 0"
    using c0 a by auto
  have "c2 * p1 \<le> 0" using cp c0 by simp
  then have "p1 \<le> 0" using c2pos by (simp add: mult_le_0_iff)
  moreover have "0 \<le> p1" using pc c0 by auto
  ultimately have p0: "p1 = 0" by simp
  then have "c2 \<le> p2" using pc c0 by auto
  then have "0 < p2" using c2pos by simp
  then have "0 < p2 * (- a1)" using a1neg by (intro mult_pos_pos) auto
  then show ?thesis using p0 by simp
qed

lemma vec_pop_left:
  fixes b1 b2 q1 q2 p1 p2 :: real
  assumes q: "0 < q1 \<or> (q1 = 0 \<and> 0 \<le> q2)"
    and qb: "q1 < b1 \<or> (q1 = b1 \<and> q2 \<le> b2)"
    and bp: "b1 < p1 \<or> (b1 = p1 \<and> b2 \<le> p2)"
    and bq: "0 \<le> b1 * q2 - b2 * q1"
    and bpc: "b1 * p2 - b2 * p1 \<le> 0"
  shows "0 \<le> p1 * q2 - p2 * q1"
proof (cases "0 < b1")
  case True
  have id: "(p1 * q2 - p2 * q1) * b1 = (b1 * q2 - b2 * q1) * p1 + (b2 * p1 - b1 * p2) * q1"
    by (simp add: algebra_simps)
  have "0 \<le> p1" using True bp by auto
  then have "0 \<le> (b1 * q2 - b2 * q1) * p1" using bq by (intro mult_nonneg_nonneg) auto
  moreover have "0 \<le> (b2 * p1 - b1 * p2) * q1" using bpc q by (intro mult_nonneg_nonneg) auto
  ultimately have "0 \<le> (p1 * q2 - p2 * q1) * b1" using id by linarith
  then show ?thesis using True by (rule nonneg_factor)
next
  case False
  then have b0: "b1 = 0" "q1 = 0" "0 \<le> q2" using q qb by auto
  have "0 \<le> p1" using bp b0 by auto
  then have "0 \<le> p1 * q2" using b0 by (intro mult_nonneg_nonneg) auto
  then show ?thesis using b0 by simp
qed

lemma vec_collinear_beyond:
  fixes b1 b2 b1' b2' c1 c2 :: real
  assumes b: "b1 < 0 \<or> (b1 = 0 \<and> b2 < 0)"
    and b': "b1' < b1 \<or> (b1' = b1 \<and> b2' < b2)"
    and col: "b1 * b2' - b2 * b1' = 0"
    and k: "0 < c1 * b2 - c2 * b1"
    and m: "c1 * b2' - c2 * b1' \<le> c1 * b2 - c2 * b1"
  shows False
proof -
  define k where "k = c1 * b2 - c2 * b1"
  define m where "m = c1 * b2' - c2 * b1'"
  have kpos: "0 < k" and mk: "m \<le> k" using assms by (simp_all add: k_def m_def)
  have e1: "k * b1' = m * b1"
  proof -
    have "k * b1' - m * b1 = c1 * (b2 * b1' - b1 * b2')" by (simp add: k_def m_def algebra_simps)
    moreover have "b2 * b1' - b1 * b2' = 0" using col by simp
    ultimately have "k * b1' - m * b1 = 0" by simp
    then show ?thesis by simp
  qed
  have e2: "k * b2' = m * b2"
  proof -
    have "k * b2' - m * b2 = c2 * (b2 * b1' - b1 * b2')"
      by (simp add: k_def m_def algebra_simps)
    moreover have "b2 * b1' - b1 * b2' = 0" using col by simp
    ultimately have "k * b2' - m * b2 = 0" by simp
    then show ?thesis by simp
  qed
  show False
  proof (cases "b1' < b1")
    case True
    then have "b1' < 0" using b by auto
    have "k * b1' < k * b1" using True kpos by simp
    then have lt: "m * b1 < k * b1" using e1 by simp
    have "b1 \<noteq> 0" using lt by auto
    then have "b1 < 0" using b by auto
    with lt have "k < m" by (simp add: mult_less_cancel_right)
    then show False using mk by simp
  next
    case False
    then have eq: "b1' = b1" and lt2: "b2' < b2" using b' by auto
    have "(k - m) * b1 = 0" using e1 eq by (simp add: algebra_simps)
    then consider "k = m" | "b1 = 0" by auto
    then show False
    proof cases
      case 1
      then have "k * b2' = k * b2" using e2 by simp
      then show False using kpos lt2 by simp
    next
      case 2
      then have "b2 < 0" using b by auto
      have "k * b2' < k * b2" using lt2 kpos by simp
      then have "m * b2 < k * b2" using e2 by simp
      with \<open>b2 < 0\<close> have "k < m" by (simp add: mult_less_cancel_right)
      then show False using mk by simp
    qed
  qed
qed

text \<open>The comparator of the source and the order of the keys agree.\<close>

lemma compareLatLng_sortKey:
  "compareLatLng a b \<le> 0 \<longleftrightarrow> sortKey a \<le> sortKey b"
  "compareLatLng a b < 0 \<longleftrightarrow> sortKey a < sortKey b"
  by (auto simp: compareLatLng_def sortKey_def)

text \<open>The same facts for points, ordered by \<open>sortKey\<close>.\<close>

lemma sortKey_eq: "sortKey a = sortKey b \<Longrightarrow> a = (b::LatLng)"
  by (cases a, cases b) (simp add: sortKey_def)

lemma cross_chain_left:
  assumes "sortKey a \<le> sortKey b" "sortKey b \<le> sortKey c" "sortKey c \<le> sortKey p"
    and "0 < exactCross a b c" "0 \<le> exactCross b c p"
  shows "0 \<le> exactCross a b p"
proof -
  define a1 a2 c1 c2 p1 p2 where "a1 = lat a - lat b" and "a2 = lng a - lng b"
    and "c1 = lat c - lat b" and "c2 = lng c - lng b"
    and "p1 = lat p - lat b" and "p2 = lng p - lng b"
  note d = a1_def a2_def c1_def c2_def p1_def p2_def
  have 1: "a1 < 0 \<or> (a1 = 0 \<and> a2 \<le> 0)" using assms(1) by (auto simp: sortKey_def d)
  have 2: "0 < c1 \<or> (c1 = 0 \<and> 0 \<le> c2)" using assms(2) by (auto simp: sortKey_def d)
  have 3: "c1 < p1 \<or> (c1 = p1 \<and> c2 \<le> p2)" using assms(3) by (auto simp: sortKey_def d)
  have 4: "exactCross a b c = c1 * a2 - c2 * a1" by (simp add: exactCross_def d algebra_simps)
  have 5: "exactCross b c p = c1 * p2 - c2 * p1" by (simp add: exactCross_def d algebra_simps)
  have 6: "exactCross a b p = p1 * a2 - p2 * a1" by (simp add: exactCross_def d algebra_simps)
  show ?thesis using vec_chain_left [OF 1 2 3] assms(4,5) unfolding 4 5 6 by blast
qed

lemma cross_pop_step:
  assumes "0 \<le> exactCross b p q" "0 \<le> exactCross a b q" "exactCross a b p \<le> 0"
  shows "0 \<le> exactCross a p q"
proof -
  have "exactCross a p q = exactCross b p q + exactCross a b q - exactCross a b p"
    by (simp add: exactCross_def algebra_simps)
  then show ?thesis using assms by linarith
qed

lemma cross_pop_left:
  assumes "sortKey a \<le> sortKey q" "sortKey q \<le> sortKey b" "sortKey b \<le> sortKey p"
    and "0 \<le> exactCross a b q" "exactCross a b p \<le> 0"
  shows "0 \<le> exactCross a p q"
proof -
  define b1 b2 q1 q2 p1 p2 where "b1 = lat b - lat a" and "b2 = lng b - lng a"
    and "q1 = lat q - lat a" and "q2 = lng q - lng a"
    and "p1 = lat p - lat a" and "p2 = lng p - lng a"
  note d = b1_def b2_def q1_def q2_def p1_def p2_def
  have 1: "0 < q1 \<or> (q1 = 0 \<and> 0 \<le> q2)" using assms(1) by (auto simp: sortKey_def d)
  have 2: "q1 < b1 \<or> (q1 = b1 \<and> q2 \<le> b2)" using assms(2) by (auto simp: sortKey_def d)
  have 3: "b1 < p1 \<or> (b1 = p1 \<and> b2 \<le> p2)" using assms(3) by (auto simp: sortKey_def d)
  have 4: "exactCross a b q = b1 * q2 - b2 * q1" by (simp add: exactCross_def d algebra_simps)
  have 5: "exactCross a b p = b1 * p2 - b2 * p1" by (simp add: exactCross_def d algebra_simps)
  have 6: "exactCross a p q = p1 * q2 - p2 * q1" by (simp add: exactCross_def d algebra_simps)
  show ?thesis using vec_pop_left [OF 1 2 3] assms(4,5) unfolding 4 5 6 by blast
qed

lemma cross_push_left:
  assumes "sortKey a \<le> sortKey b" "sortKey b \<le> sortKey p" "sortKey q \<le> sortKey b"
    and "0 \<le> exactCross a b q" "0 < exactCross a b p"
  shows "0 \<le> exactCross b p q"
proof -
  define d1 d2 v1 v2 u1 u2 where "d1 = lat b - lat a" and "d2 = lng b - lng a"
    and "v1 = lat p - lat b" and "v2 = lng p - lng b"
    and "u1 = lat q - lat b" and "u2 = lng q - lng b"
  note d = d1_def d2_def v1_def v2_def u1_def u2_def
  have 1: "0 < d1 \<or> (d1 = 0 \<and> 0 \<le> d2)" using assms(1) by (auto simp: sortKey_def d)
  have 2: "0 < v1 \<or> (v1 = 0 \<and> 0 \<le> v2)" using assms(2) by (auto simp: sortKey_def d)
  have 3: "u1 < 0 \<or> (u1 = 0 \<and> u2 \<le> 0)" using assms(3) by (auto simp: sortKey_def d)
  have 4: "exactCross a b q = d1 * u2 - d2 * u1" by (simp add: exactCross_def d algebra_simps)
  have 5: "exactCross a b p = d1 * v2 - d2 * v1" by (simp add: exactCross_def d algebra_simps)
  have 6: "exactCross b p q = v1 * u2 - v2 * u1" by (simp add: exactCross_def d algebra_simps)
  show ?thesis using vec_push_left [OF 1 2 3] assms(4,5) unfolding 4 5 6 by blast
qed

lemma cross_collinear_beyond:
  assumes "sortKey b' < sortKey b" "sortKey b < sortKey t"
    and "0 \<le> exactCross b t b'" "0 \<le> exactCross b' t b"
    and "0 < exactCross c b t" "0 \<le> exactCross c b b'"
  shows False
proof -
  define b1 b2 e1 e2 c1 c2 where "b1 = lat b - lat t" and "b2 = lng b - lng t"
    and "e1 = lat b' - lat t" and "e2 = lng b' - lng t"
    and "c1 = lat c - lat t" and "c2 = lng c - lng t"
  note d = b1_def b2_def e1_def e2_def c1_def c2_def
  have 1: "b1 < 0 \<or> (b1 = 0 \<and> b2 < 0)" using assms(2) by (auto simp: sortKey_def d)
  have 2: "e1 < b1 \<or> (e1 = b1 \<and> e2 < b2)" using assms(1) by (auto simp: sortKey_def d)
  have "exactCross b t b' = - (b1 * e2 - b2 * e1)" by (simp add: exactCross_def d algebra_simps)
  moreover have "exactCross b' t b = b1 * e2 - b2 * e1" by (simp add: exactCross_def d algebra_simps)
  ultimately have 3: "b1 * e2 - b2 * e1 = 0" using assms(3,4) by linarith
  have "exactCross c b t = c1 * b2 - c2 * b1" by (simp add: exactCross_def d algebra_simps)
  then have 4: "0 < c1 * b2 - c2 * b1" using assms(5) by simp
  have "exactCross c b b' = (c1 * b2 - c2 * b1) - (c1 * e2 - c2 * e1) + (b1 * e2 - b2 * e1)"
    by (simp add: exactCross_def d algebra_simps)
  then have 5: "c1 * e2 - c2 * e1 \<le> c1 * b2 - c2 * b1" using assms(6) 3 by linarith
  show False using vec_collinear_beyond [OF 1 2 3 4 5] .
qed

subsection \<open>The invariant of a chain\<close>

text \<open>
  While a chain is built from points in ascending order, its stack satisfies \<open>chainInv\<close>
  for the set of points pushed so far: the inner loop pops, and keeps every point seen
  that is not before the new top on or left of the line from the top to the new point.
\<close>

lemma cross_same [simp]: "exactCross a p a = 0" "exactCross a p p = 0" "exactCross a a p = 0"
  by (simp_all add: exactCross_def)

lemma stackTurns_tl: "stackTurns (x # st) \<Longrightarrow> stackTurns st"
  by (induction st rule: stackTurns.induct) auto

lemma stackLeft_tl: "stackLeft (x # st) q \<Longrightarrow> stackLeft st q"
  by (cases st) auto

lemma exactPop_inv:
  assumes "st \<noteq> []" "stackSorted st" "stackTurns st" "\<forall>q\<in>Q. stackLeft st q" "set st \<subseteq> Q"
    and "\<forall>q\<in>Q. sortKey q \<le> sortKey p"
    and "\<forall>q\<in>Q. sortKey (hd st) \<le> sortKey q \<longrightarrow> 0 \<le> exactCross (hd st) p q"
  shows "exactPop p st \<noteq> [] \<and> last (exactPop p st) = last st \<and> stackSorted (exactPop p st)
       \<and> (\<forall>q\<in>Q. stackLeft (exactPop p st) q) \<and> set (exactPop p st) \<subseteq> set st
       \<and> (\<forall>q\<in>Q. sortKey (hd (exactPop p st)) \<le> sortKey q
             \<longrightarrow> 0 \<le> exactCross (hd (exactPop p st)) p q)
       \<and> stackTurns (p # exactPop p st)"
  using assms
proof (induction p st rule: exactPop.induct)
  case (1 p b a st)
  show ?case
  proof (cases "exactCross a b p \<le> 0")
    case False
    then show ?thesis using 1 by simp
  next
    case True
    have ab: "sortKey a \<le> sortKey b" using "1.prems"(2) by (simp add: stackSorted_def)
    have bp: "sortKey b \<le> sortKey p" using "1.prems"(5,6) by simp
    have E: "\<forall>q\<in>Q. sortKey (hd (a # st)) \<le> sortKey q \<longrightarrow> 0 \<le> exactCross (hd (a # st)) p q"
    proof (intro ballI impI)
      fix q assume q: "q \<in> Q" and aq: "sortKey (hd (a # st)) \<le> sortKey q"
      have left: "0 \<le> exactCross a b q" using "1.prems"(4) q by auto
      show "0 \<le> exactCross (hd (a # st)) p q"
      proof (cases "sortKey b \<le> sortKey q")
        case True
        then have "0 \<le> exactCross b p q" using "1.prems"(7) q by simp
        then show ?thesis using cross_pop_step left \<open>exactCross a b p \<le> 0\<close> by simp
      next
        case False
        then have "sortKey q \<le> sortKey b" by simp
        then show ?thesis using cross_pop_left [of a q b p] aq bp left \<open>exactCross a b p \<le> 0\<close> by simp
      qed
    qed
    have "exactPop p (a # st) \<noteq> [] \<and> last (exactPop p (a # st)) = last (a # st)
       \<and> stackSorted (exactPop p (a # st))
       \<and> (\<forall>q\<in>Q. stackLeft (exactPop p (a # st)) q) \<and> set (exactPop p (a # st)) \<subseteq> set (a # st)
       \<and> (\<forall>q\<in>Q. sortKey (hd (exactPop p (a # st))) \<le> sortKey q
             \<longrightarrow> 0 \<le> exactCross (hd (exactPop p (a # st))) p q)
       \<and> stackTurns (p # exactPop p (a # st))"
    proof (rule "1.IH" [OF True])
      show "a # st \<noteq> []" by simp
      show "stackSorted (a # st)" using "1.prems"(2) by (simp add: stackSorted_def)
      show "stackTurns (a # st)" using "1.prems"(3) by (rule stackTurns_tl)
      show "\<forall>q\<in>Q. stackLeft (a # st) q" using "1.prems"(4) by auto
      show "set (a # st) \<subseteq> Q" using "1.prems"(5) by simp
      show "\<forall>q\<in>Q. sortKey q \<le> sortKey p" by fact
      show "\<forall>q\<in>Q. sortKey (hd (a # st)) \<le> sortKey q \<longrightarrow> 0 \<le> exactCross (hd (a # st)) p q"
        by (rule E)
    qed
    then show ?thesis using True by auto
  qed
qed simp_all

lemma stackLeft_below:
  assumes "stackTurns (b # a # r)" "stackSorted (b # a # r)" "sortKey b \<le> sortKey p"
    and "0 \<le> exactCross a b p"
  shows "stackLeft (b # a # r) p"
  using assms
proof (induction r arbitrary: a b)
  case Nil
  then show ?case by simp
next
  case (Cons c r)
  have ca: "sortKey c \<le> sortKey a" and ab: "sortKey a \<le> sortKey b"
    using Cons.prems(2) by (simp_all add: stackSorted_def)
  have turn: "0 < exactCross c a b" using Cons.prems(1) by simp
  have "0 \<le> exactCross c a p"
    using cross_chain_left [OF ca ab Cons.prems(3) turn Cons.prems(4)] .
  moreover have "stackTurns (a # c # r)" using Cons.prems(1) by (rule stackTurns_tl)
  moreover have "stackSorted (a # c # r)" using Cons.prems(2) by (simp add: stackSorted_def)
  moreover have "sortKey a \<le> sortKey p" using ab Cons.prems(3) by simp
  ultimately have "stackLeft (a # c # r) p" by (rule Cons.IH [rotated 3])
  then show ?case using Cons.prems(4) by simp
qed

lemma stackLeft_new:
  assumes "stackTurns (p # st)" "stackSorted (p # st)"
  shows "stackLeft (p # st) p"
proof (cases st)
  case Nil
  then show ?thesis by simp
next
  case (Cons b r)
  show ?thesis
  proof (cases r)
    case Nil
    then show ?thesis using Cons by simp
  next
    case (Cons a r')
    have "stackLeft (b # a # r') p"
    proof (rule stackLeft_below)
      show "stackTurns (b # a # r')" using assms(1) \<open>st = b # r\<close> Cons by simp
      show "stackSorted (b # a # r')" using assms(2) \<open>st = b # r\<close> Cons by (simp add: stackSorted_def)
      show "sortKey b \<le> sortKey p" using assms(2) \<open>st = b # r\<close> by (simp add: stackSorted_def)
      show "0 \<le> exactCross a b p" using assms(1) \<open>st = b # r\<close> Cons by simp
    qed
    then show ?thesis using \<open>st = b # r\<close> Cons by simp
  qed
qed

lemma exactPush_inv:
  assumes inv: "chainInv Q st" and max: "\<forall>q\<in>Q. sortKey q \<le> sortKey p"
  shows "chainInv (insert p Q) (exactPush p st)"
proof -
  have st: "st \<noteq> []" "set st \<subseteq> Q" "\<forall>q\<in>Q. sortKey (last st) \<le> sortKey q"
    "\<forall>q\<in>Q. sortKey q \<le> sortKey (hd st)" "stackSorted st" "stackTurns st" "\<forall>q\<in>Q. stackLeft st q"
    using inv by (simp_all add: chainInv_def)
  have E0: "\<forall>q\<in>Q. sortKey (hd st) \<le> sortKey q \<longrightarrow> 0 \<le> exactCross (hd st) p q"
  proof (intro ballI impI)
    fix q assume "q \<in> Q" "sortKey (hd st) \<le> sortKey q"
    then have "sortKey q = sortKey (hd st)" using st(4) by (simp add: order_antisym)
    then have "q = hd st" by (rule sortKey_eq)
    then show "0 \<le> exactCross (hd st) p q" by simp
  qed
  define st' where "st' = exactPop p st"
  have pop: "st' \<noteq> []" "last st' = last st" "stackSorted st'" "\<forall>q\<in>Q. stackLeft st' q"
    "set st' \<subseteq> set st"
    "\<forall>q\<in>Q. sortKey (hd st') \<le> sortKey q \<longrightarrow> 0 \<le> exactCross (hd st') p q"
    "stackTurns (p # st')"
    using exactPop_inv [OF st(1,5,6,7,2) max E0] by (simp_all add: st'_def)
  have sub: "set st' \<subseteq> Q" using pop(5) st(2) by blast
  have sorted: "stackSorted (p # st')"
    using pop(3) sub max by (auto simp: stackSorted_def)
  have leftQ: "stackLeft (p # st') q" if q: "q \<in> Q" for q
  proof (cases st')
    case Nil
    then show ?thesis using pop(1) by simp
  next
    case (Cons b r)
    have tail: "stackLeft (b # r) q" using pop(4) q Cons by simp
    have "0 \<le> exactCross b p q"
    proof (cases "sortKey b \<le> sortKey q")
      case True
      then show ?thesis using pop(6) q Cons by simp
    next
      case False
      then have qb: "sortKey q \<le> sortKey b" by simp
      show ?thesis
      proof (cases r)
        case Nil
        then have "b = last st" using pop(2) Cons by simp
        then show ?thesis using st(3) q False by simp
      next
        case (Cons a r')
        have ab: "sortKey a \<le> sortKey b"
          using pop(3) \<open>st' = b # r\<close> Cons by (simp add: stackSorted_def)
        have bp: "sortKey b \<le> sortKey p" using sub max \<open>st' = b # r\<close> by simp
        have l: "0 \<le> exactCross a b q" using tail Cons by simp
        have t: "0 < exactCross a b p" using pop(7) \<open>st' = b # r\<close> Cons by simp
        show ?thesis using cross_push_left [OF ab bp qb l t] .
      qed
    qed
    then show ?thesis using tail Cons by simp
  qed
  have leftp: "stackLeft (p # st') p" using pop(7) sorted by (rule stackLeft_new)
  have "last st \<in> Q" using st(1,2) by auto
  then have "sortKey (last st) \<le> sortKey p" using max by simp
  then show ?thesis
    unfolding chainInv_def exactPush_def st'_def [symmetric]
    using pop(1,2,7) sub sorted leftQ leftp st(3) max by auto
qed

lemma fold_exactPush_inv:
  assumes "chainInv Q st" "sorted (map sortKey xs)" "\<forall>q\<in>Q. \<forall>x\<in>set xs. sortKey q \<le> sortKey x"
  shows "chainInv (Q \<union> set xs) (fold exactPush xs st)"
  using assms
proof (induction xs arbitrary: Q st)
  case Nil
  then show ?case by simp
next
  case (Cons x xs)
  have "chainInv (insert x Q) (exactPush x st)"
    using Cons.prems by (intro exactPush_inv) auto
  moreover have "sorted (map sortKey xs)" using Cons.prems(2) by simp
  moreover have "\<forall>q\<in>insert x Q. \<forall>y\<in>set xs. sortKey q \<le> sortKey y"
    using Cons.prems(2,3) by auto
  ultimately have "chainInv (insert x Q \<union> set xs) (fold exactPush xs (exactPush x st))"
    by (rule Cons.IH)
  then show ?case by simp
qed

lemma chain_stack_inv:
  assumes "sorted (map sortKey xs)" "xs \<noteq> []"
  shows "chainInv (set xs) (fold exactPush xs [])"
proof -
  obtain x r where xs: "xs = x # r" using assms(2) by (cases xs) auto
  have "chainInv {x} [x]" by (simp add: chainInv_def stackSorted_def)
  moreover have "sorted (map sortKey r)" using assms(1) xs by simp
  moreover have "\<forall>q\<in>{x}. \<forall>y\<in>set r. sortKey q \<le> sortKey y" using assms(1) xs by simp
  ultimately have "chainInv ({x} \<union> set r) (fold exactPush r [x])" by (rule fold_exactPush_inv)
  then show ?thesis using xs by (simp add: exactPush_def)
qed

subsection \<open>A chain is determined by its invariant\<close>

text \<open>
  Two stacks that satisfy the invariant, each for a set of points that holds the other
  stack, are equal: they share the top, and below a common point they cannot part,
  since the nearer of two different next points would lie strictly right of an edge of
  the other stack.
\<close>

lemma stack_distinct_aux:
  assumes "stackSorted st" "stackTurns st" "3 \<le> length st"
  shows "distinct st"
  using assms
proof (induction st rule: stackTurns.induct)
  case (1 c b a st)
  have turn: "0 < exactCross a b c" using "1.prems"(2) by simp
  then have ne: "a \<noteq> b" "b \<noteq> c" by auto
  have srt: "stackSorted (b # a # st)" using "1.prems"(1) by (simp add: stackSorted_def)
  have trn: "stackTurns (b # a # st)" using "1.prems"(2) by simp
  have d: "distinct (b # a # st)"
  proof (cases st)
    case Nil
    then show ?thesis using ne by simp
  next
    case (Cons x r)
    then show ?thesis using "1.IH" srt trn by simp
  qed
  have bc: "sortKey b \<le> sortKey c" using "1.prems"(1) by (simp add: stackSorted_def)
  have "c \<notin> set (b # a # st)"
  proof
    assume "c \<in> set (b # a # st)"
    then have "sortKey c \<le> sortKey b" using srt by (auto simp: stackSorted_def)
    then have "sortKey b = sortKey c" using bc by simp
    then show False using ne sortKey_eq by blast
  qed
  then show ?case using d by simp
qed simp_all

lemma stackSorted_last:
  assumes "stackSorted st" "x \<in> set st"
  shows "sortKey (last st) \<le> sortKey x"
  using assms
proof (induction st)
  case Nil
  then show ?case by simp
next
  case (Cons y st)
  then show ?case by (cases st) (auto simp: stackSorted_def)
qed

lemma stack_unique_aux:
  assumes "stackSorted (t # r)" "stackSorted (t # r')" "distinct (t # r)" "distinct (t # r')"
    and "stackTurns (t # r)" "stackTurns (t # r')" "last (t # r) = last (t # r')"
    and "\<forall>q\<in>set (t # r). stackLeft (t # r') q" "\<forall>q\<in>set (t # r'). stackLeft (t # r) q"
  shows "r = r'"
  using assms
proof (induction r arbitrary: t r')
  case Nil
  show ?case
  proof (cases r')
    case Nil
    then show ?thesis by simp
  next
    case (Cons b' s')
    then have "last (t # r') \<in> set r'" by simp
    then show ?thesis using Nil.prems(4,7) by auto
  qed
next
  case (Cons b s)
  show ?case
  proof (cases r')
    case Nil
    then have "last (t # b # s) = t" using Cons.prems(7) by simp
    moreover have "last (t # b # s) \<in> set (b # s)" by simp
    ultimately show ?thesis using Cons.prems(3) by auto
  next
    case r': (Cons b' s')
    have bt: "sortKey b < sortKey t"
    proof -
      have "sortKey b \<le> sortKey t" using Cons.prems(1) by (simp add: stackSorted_def)
      moreover have "b \<noteq> t" using Cons.prems(3) by auto
      ultimately show ?thesis using sortKey_eq by (metis order_le_less)
    qed
    have b't: "sortKey b' < sortKey t"
    proof -
      have "sortKey b' \<le> sortKey t" using Cons.prems(2) r' by (simp add: stackSorted_def)
      moreover have "b' \<noteq> t" using Cons.prems(4) r' by auto
      ultimately show ?thesis using sortKey_eq by (metis order_le_less)
    qed
    have c1: "0 \<le> exactCross b t b'" using Cons.prems(9) r' by simp
    have c2: "0 \<le> exactCross b' t b" using Cons.prems(8) r' by simp
    have lastb: "sortKey (last (b # s)) \<le> sortKey b"
      using stackSorted_last [of "b # s" b] Cons.prems(1) by (simp add: stackSorted_def)
    have lastb': "sortKey (last (b' # s')) \<le> sortKey b'"
      using stackSorted_last [of "b' # s'" b'] Cons.prems(2) r' by (simp add: stackSorted_def)
    have lasteq: "last (b # s) = last (b' # s')" using Cons.prems(7) r' by simp
    have "b = b'"
    proof (rule ccontr)
      assume "b \<noteq> b'"
      then have "sortKey b \<noteq> sortKey b'" using sortKey_eq by blast
      then consider "sortKey b' < sortKey b" | "sortKey b < sortKey b'" by (metis not_less_iff_gr_or_eq)
      then show False
      proof cases
        case 1
        show False
        proof (cases s)
          case Nil
          then show ?thesis using lasteq lastb' 1 by simp
        next
          case (Cons c s2)
          have "0 < exactCross c b t" using Cons.prems(5) \<open>s = c # s2\<close> by simp
          moreover have "0 \<le> exactCross c b b'" using Cons.prems(9) r' \<open>s = c # s2\<close> by simp
          ultimately show ?thesis using cross_collinear_beyond [OF 1 bt c1 c2] by blast
        qed
      next
        case 2
        show False
        proof (cases s')
          case Nil
          then show ?thesis using lasteq lastb 2 by simp
        next
          case (Cons c s2)
          have "0 < exactCross c b' t" using Cons.prems(6) r' \<open>s' = c # s2\<close> by simp
          moreover have "0 \<le> exactCross c b' b" using Cons.prems(8) r' \<open>s' = c # s2\<close> by simp
          ultimately show ?thesis using cross_collinear_beyond [OF 2 b't c2 c1] by blast
        qed
      qed
    qed
    have "s = s'"
    proof (rule Cons.IH [of b s'])
      show "stackSorted (b # s)" using Cons.prems(1) by (simp add: stackSorted_def)
      show "stackSorted (b # s')" using Cons.prems(2) r' \<open>b = b'\<close> by (simp add: stackSorted_def)
      show "distinct (b # s)" using Cons.prems(3) by simp
      show "distinct (b # s')" using Cons.prems(4) r' \<open>b = b'\<close> by simp
      show "stackTurns (b # s)" using Cons.prems(5) by (rule stackTurns_tl)
      show "stackTurns (b # s')" using Cons.prems(6) r' \<open>b = b'\<close> stackTurns_tl by blast
      show "last (b # s) = last (b # s')" using lasteq \<open>b = b'\<close> by simp
      show "\<forall>q\<in>set (b # s). stackLeft (b # s') q"
        using Cons.prems(8) r' \<open>b = b'\<close> by (auto dest: stackLeft_tl)
      show "\<forall>q\<in>set (b # s'). stackLeft (b # s) q"
        using Cons.prems(9) r' \<open>b = b'\<close> by (auto dest: stackLeft_tl)
    qed
    then show ?thesis using r' \<open>b = b'\<close> by simp
  qed
qed

lemma stack_degenerate:
  assumes "stackSorted st" "stackTurns st" "2 \<le> length st" "last st = hd st"
  shows "st = [hd st, hd st]"
proof (cases "3 \<le> length st")
  case True
  then have d: "distinct st" using assms(1,2) by (intro stack_distinct_aux)
  obtain x r where st0: "st = x # r" using True by (cases st) auto
  then have "r \<noteq> []" using True by auto
  note st = st0 this
  then have "last st \<in> set r" by simp
  then show ?thesis using d st assms(4) by auto
next
  case False
  then have "length st = 2" using assms(3) by simp
  then obtain x y where "st = [x, y]"
    by (cases st; cases "tl st") auto
  then show ?thesis using assms(4) by simp
qed

lemma stack_distinct:
  assumes "stackSorted st" "stackTurns st" "2 \<le> length st" "last st \<noteq> hd st"
  shows "distinct st"
proof (cases "3 \<le> length st")
  case True
  then show ?thesis using assms(1,2) by (intro stack_distinct_aux)
next
  case False
  then have "length st = 2" using assms(3) by simp
  then obtain x y where "st = [x, y]"
    by (cases st; cases "tl st") auto
  then show ?thesis using assms(4) by auto
qed

lemma chain_unique:
  assumes "chainInv Q st" "chainInv Q' st'" "2 \<le> length st" "2 \<le> length st'"
    and "set st \<subseteq> Q'" "set st' \<subseteq> Q"
  shows "st = st'"
proof -
  have st: "st \<noteq> []" "\<forall>q\<in>Q. sortKey (last st) \<le> sortKey q"
    "\<forall>q\<in>Q. sortKey q \<le> sortKey (hd st)" "stackSorted st" "stackTurns st" "\<forall>q\<in>Q. stackLeft st q"
    using assms(1) by (simp_all add: chainInv_def)
  have st': "st' \<noteq> []" "\<forall>q\<in>Q'. sortKey (last st') \<le> sortKey q"
    "\<forall>q\<in>Q'. sortKey q \<le> sortKey (hd st')" "stackSorted st'" "stackTurns st'"
    "\<forall>q\<in>Q'. stackLeft st' q"
    using assms(2) by (simp_all add: chainInv_def)
  have "hd st \<in> Q'" "hd st' \<in> Q" "last st \<in> Q'" "last st' \<in> Q"
    using st(1) st'(1) assms(5,6) by auto
  then have "sortKey (hd st) = sortKey (hd st')" "sortKey (last st) = sortKey (last st')"
    using st(2,3) st'(2,3) by (auto intro: order_antisym)
  then have hd: "hd st = hd st'" and last: "last st = last st'"
    by (auto intro: sortKey_eq)
  show ?thesis
  proof (cases "last st = hd st")
    case True
    have "st = [hd st, hd st]" using st(4,5) assms(3) True by (rule stack_degenerate)
    moreover have "st' = [hd st', hd st']"
      using st'(4,5) assms(4) True hd last by (intro stack_degenerate) auto
    ultimately show ?thesis using hd by simp
  next
    case False
    have d: "distinct st" using st(4,5) assms(3) False by (rule stack_distinct)
    have d': "distinct st'" using st'(4,5) assms(4) False hd last by (intro stack_distinct) auto
    obtain t r where r: "st = t # r" using st(1) by (cases st) auto
    obtain r' where r': "st' = t # r'" using st'(1) hd r by (cases st') auto
    have "r = r'"
    proof (rule stack_unique_aux [of t])
      show "stackSorted (t # r)" "stackSorted (t # r')" using st(4) st'(4) r r' by simp_all
      show "distinct (t # r)" "distinct (t # r')" using d d' r r' by simp_all
      show "stackTurns (t # r)" "stackTurns (t # r')" using st(5) st'(5) r r' by simp_all
      show "last (t # r) = last (t # r')" using last r r' by simp
      show "\<forall>q\<in>set (t # r). stackLeft (t # r') q" using st'(6) assms(5) r r' by auto
      show "\<forall>q\<in>set (t # r'). stackLeft (t # r) q" using st(6) assms(6) r r' by auto
    qed
    then show ?thesis using r r' by simp
  qed
qed

subsection \<open>The upper chain\<close>

text \<open>
  The upper chain is built from the points in descending order. Negating both
  coordinates turns the order around and keeps every cross product, so the upper chain
  is the negated chain of the negated points.
\<close>

lemma negPoint_negPoint [simp]: "negPoint (negPoint p) = p"
  by (cases p) (simp add: negPoint_def)

lemma cross_neg [simp]:
  "exactCross (negPoint a) (negPoint b) (negPoint c) = exactCross a b c"
  by (simp add: exactCross_def negPoint_def algebra_simps)

lemma sortKey_neg [simp]:
  "sortKey (negPoint a) \<le> sortKey (negPoint b) \<longleftrightarrow> sortKey b \<le> sortKey a"
  by (auto simp: sortKey_def negPoint_def)

lemma exactPop_neg: "exactPop (negPoint p) (map negPoint st) = map negPoint (exactPop p st)"
  by (induction p st rule: exactPop.induct) simp_all

lemma fold_exactPush_neg:
  "fold exactPush (map negPoint xs) (map negPoint st) = map negPoint (fold exactPush xs st)"
proof (induction xs arbitrary: st)
  case Nil
  then show ?case by simp
next
  case (Cons x xs)
  have "exactPush (negPoint x) (map negPoint st) = map negPoint (exactPush x st)"
    by (simp add: exactPush_def exactPop_neg)
  then show ?case using Cons.IH [of "exactPush x st"] by simp
qed

lemma sorted_neg_rev:
  assumes "sorted (map sortKey xs)"
  shows "sorted (map sortKey (map negPoint (rev xs)))"
proof -
  have "sorted_wrt (\<lambda>a b. sortKey a \<le> sortKey b) xs"
    using assms by (simp add: sorted_map)
  then have "sorted_wrt (\<lambda>a b. sortKey b \<le> sortKey a) (rev xs)"
    by (simp add: sorted_wrt_rev)
  then show ?thesis by (simp add: sorted_map sorted_wrt_map)
qed

subsection \<open>Ends, members and lengths of a chain\<close>

lemma exactPop_subset: "set (exactPop p st) \<subseteq> set st"
  by (induction p st rule: exactPop.induct) auto

lemma exactPop_nonempty: "st \<noteq> [] \<Longrightarrow> exactPop p st \<noteq> []"
  by (induction p st rule: exactPop.induct) auto

lemma exactPop_last: "last (exactPop p st) = last st"
  by (induction p st rule: exactPop.induct) auto

lemma fold_exactPush_subset: "set (fold exactPush xs st) \<subseteq> set xs \<union> set st"
proof (induction xs arbitrary: st)
  case Nil
  then show ?case by simp
next
  case (Cons x xs)
  have "set (exactPush x st) \<subseteq> insert x (set st)"
    using exactPop_subset [of x st] by (auto simp: exactPush_def)
  then show ?case using Cons.IH [of "exactPush x st"] by auto
qed

lemma fold_exactPush_hd: "xs \<noteq> [] \<Longrightarrow> hd (fold exactPush xs st) = last xs"
proof (induction xs arbitrary: st)
  case Nil
  then show ?case by simp
next
  case (Cons x xs)
  then show ?case by (cases xs) (simp_all add: exactPush_def)
qed

lemma fold_exactPush_last: "st \<noteq> [] \<Longrightarrow> last (fold exactPush xs st) = last st"
proof (induction xs arbitrary: st)
  case Nil
  then show ?case by simp
next
  case (Cons x xs)
  have "exactPush x st \<noteq> []" by (simp add: exactPush_def)
  moreover have "last (exactPush x st) = last st"
    using Cons.prems by (simp add: exactPush_def exactPop_nonempty exactPop_last)
  ultimately show ?case using Cons.IH [of "exactPush x st"] by simp
qed

lemma fold_exactPush_last_start: "xs \<noteq> [] \<Longrightarrow> last (fold exactPush xs []) = hd xs"
  by (cases xs) (simp_all add: fold_exactPush_last exactPush_def)

lemma fold_exactPush_length: "st \<noteq> [] \<Longrightarrow> xs \<noteq> [] \<Longrightarrow> 2 \<le> length (fold exactPush xs st)"
proof (induction xs arbitrary: st)
  case Nil
  then show ?case by simp
next
  case (Cons x xs)
  have ne: "exactPop x st \<noteq> []" using Cons.prems(1) by (rule exactPop_nonempty)
  then have two: "2 \<le> length (exactPush x st)" by (cases "exactPop x st") (simp_all add: exactPush_def)
  show ?case
  proof (cases xs)
    case Nil
    then show ?thesis using two by simp
  next
    case (Cons y ys)
    then show ?thesis using Cons.IH [of "exactPush x st"] by (simp add: exactPush_def)
  qed
qed

lemma fold_exactPush_length_start: "2 \<le> length xs \<Longrightarrow> 2 \<le> length (fold exactPush xs [])"
proof -
  assume "2 \<le> length xs"
  then obtain x y r where "xs = x # y # r" by (cases xs; cases "tl xs") auto
  then show ?thesis using fold_exactPush_length [of "[x]" "y # r"] by (simp add: exactPush_def)
qed

subsection \<open>The edges of the hull\<close>

lemma pathLeft_append:
  "pathLeft (xs @ ys) q \<longleftrightarrow>
     pathLeft xs q \<and> pathLeft ys q
     \<and> (xs \<noteq> [] \<and> ys \<noteq> [] \<longrightarrow> 0 \<le> exactCross (last xs) (hd ys) q)"
proof (induction xs)
  case Nil
  then show ?case by simp
next
  case (Cons x xs)
  then show ?case by (cases xs; cases ys) auto
qed

lemma pathLeft_rev: "pathLeft (rev st) q = stackLeft st q"
proof (induction st q rule: stackLeft.induct)
  case (1 b a st q)
  then show ?case by (auto simp: pathLeft_append)
qed simp_all

lemma zip_shift: "zip (y # r) (r @ [z]) = zip (y # r) r @ [(last (y # r), z)]"
  by (induction r arbitrary: y) simp_all

lemma pathLeft_zip: "pathLeft hs q \<longleftrightarrow> (\<forall>(u, v)\<in>set (zip hs (tl hs)). 0 \<le> exactCross u v q)"
  by (induction hs q rule: pathLeft.induct) auto

lemma polygonEdges_left:
  assumes "hs \<noteq> []"
  shows "(\<forall>(u, v)\<in>set (polygonEdges hs). 0 \<le> exactCross u v q)
     \<longleftrightarrow> pathLeft hs q \<and> 0 \<le> exactCross (last hs) (hd hs) q"
proof -
  obtain y r where hs: "hs = y # r" using assms by (cases hs) auto
  have "polygonEdges hs = zip hs (tl hs) @ [(last hs, hd hs)]"
    using zip_shift [of y r y] hs by (simp add: polygonEdges_def)
  then show ?thesis by (auto simp: pathLeft_zip)
qed

subsection \<open>The hull and its two stacks\<close>

lemma sort_key_nonempty: "S \<noteq> [] \<Longrightarrow> sort_key sortKey S \<noteq> []"
  by (metis length_0_conv length_sort)

lemma lower_inv:
  assumes "S \<noteq> []"
  shows "chainInv (set S) (lowerStack S)"
proof -
  have "chainInv (set (sort_key sortKey S)) (fold exactPush (sort_key sortKey S) [])"
    using assms by (intro chain_stack_inv) (simp_all add: sorted_sort_key sort_key_nonempty)
  then show ?thesis by (simp add: lowerStack_def)
qed

lemma upper_inv:
  assumes "S \<noteq> []"
  shows "chainInv (negPoint ` set S) (map negPoint (upperStack S))"
proof -
  define zs where "zs = map negPoint (rev (sort_key sortKey S))"
  have "sorted (map sortKey zs)"
    unfolding zs_def by (intro sorted_neg_rev) (simp add: sorted_sort_key)
  moreover have "zs \<noteq> []" using assms by (simp add: zs_def sort_key_nonempty)
  ultimately have "chainInv (set zs) (fold exactPush zs [])" by (rule chain_stack_inv)
  moreover have "fold exactPush zs [] = map negPoint (upperStack S)"
    using fold_exactPush_neg [of "rev (sort_key sortKey S)" "[]"] by (simp add: zs_def upperStack_def)
  moreover have "set zs = negPoint ` set S" by (simp add: zs_def)
  ultimately show ?thesis by simp
qed

lemma stack_ends:
  assumes "S \<noteq> []"
  shows "hd (lowerStack S) = last (sort_key sortKey S)" "last (lowerStack S) = hd (sort_key sortKey S)"
    "hd (upperStack S) = hd (sort_key sortKey S)" "last (upperStack S) = last (sort_key sortKey S)"
proof -
  have ne: "sort_key sortKey S \<noteq> []" using assms by (rule sort_key_nonempty)
  show "hd (lowerStack S) = last (sort_key sortKey S)"
    using ne by (simp add: lowerStack_def fold_exactPush_hd)
  show "last (lowerStack S) = hd (sort_key sortKey S)"
    using ne by (simp add: lowerStack_def fold_exactPush_last_start)
  show "hd (upperStack S) = hd (sort_key sortKey S)"
    using ne by (simp add: upperStack_def fold_exactPush_hd last_rev)
  show "last (upperStack S) = last (sort_key sortKey S)"
    using ne by (simp add: upperStack_def fold_exactPush_last_start hd_rev)
qed

lemma stack_lengths:
  assumes "2 \<le> length S"
  shows "2 \<le> length (lowerStack S)" "2 \<le> length (upperStack S)"
  using assms by (simp_all add: lowerStack_def upperStack_def fold_exactPush_length_start)

lemma stack_subsets: "set (lowerStack S) \<subseteq> set S" "set (upperStack S) \<subseteq> set S"
  using fold_exactPush_subset [of "sort_key sortKey S" "[]"]
    fold_exactPush_subset [of "rev (sort_key sortKey S)" "[]"]
  by (simp_all add: lowerStack_def upperStack_def)

lemma exactHull_eq:
  assumes "3 \<le> length S"
  shows "exactHull S = rev (tl (lowerStack S)) @ rev (upperStack S)"
  using assms
  by (simp add: exactHull_def exactChain_def lowerStack_def upperStack_def Let_def
      butlast_rev)

lemma exactHull_small: "length S < 3 \<Longrightarrow> exactHull S = S"
  by (simp add: exactHull_def)

lemma exactHull_set:
  assumes "3 \<le> length S"
  shows "set (exactHull S) = set (lowerStack S) \<union> set (upperStack S)"
proof -
  have S: "S \<noteq> []" "2 \<le> length S" using assms by auto
  obtain t r where l: "lowerStack S = t # r" using stack_lengths(1) [OF S(2)] by (cases "lowerStack S") auto
  have "upperStack S \<noteq> []" using stack_lengths(2) [OF S(2)] by auto
  then have "last (upperStack S) \<in> set (upperStack S)" by simp
  then have "t \<in> set (upperStack S)" using stack_ends(1,4) [OF S(1)] l by simp
  then show ?thesis using l by (auto simp: exactHull_eq [OF assms])
qed

lemma exactHull_length:
  assumes "3 \<le> length S"
  shows "3 \<le> length (exactHull S)"
proof -
  have "2 \<le> length (lowerStack S)" "2 \<le> length (upperStack S)"
    using assms by (simp_all add: stack_lengths)
  then show ?thesis by (simp add: exactHull_eq [OF assms])
qed

lemma exactHull_subset: "set (exactHull S) \<subseteq> set S"
proof (cases "3 \<le> length S")
  case True
  then show ?thesis using stack_subsets [of S] by (simp add: exactHull_set)
next
  case False
  then show ?thesis by (simp add: exactHull_small)
qed

lemma negPoint_inj: "map negPoint xs = map negPoint ys \<Longrightarrow> xs = ys"
proof -
  assume "map negPoint xs = map negPoint ys"
  then have "map negPoint (map negPoint xs) = map negPoint (map negPoint ys)" by simp
  then show ?thesis by (simp add: o_def)
qed

lemma exactHull_idempotent: "exactHull (exactHull S) = exactHull S"
proof (cases "3 \<le> length S")
  case False
  then show ?thesis by (simp add: exactHull_small)
next
  case True
  define H where "H = exactHull S"
  have S: "S \<noteq> []" "2 \<le> length S" using True by auto
  have H3: "3 \<le> length H" using True by (simp add: H_def exactHull_length)
  then have H: "H \<noteq> []" "2 \<le> length H" by auto
  have setH: "set H = set (lowerStack S) \<union> set (upperStack S)"
    using True by (simp add: H_def exactHull_set)
  have HS: "set H \<subseteq> set S" by (simp add: H_def exactHull_subset)
  have low: "lowerStack H = lowerStack S"
  proof (rule chain_unique)
    show "chainInv (set H) (lowerStack H)" using H(1) by (rule lower_inv)
    show "chainInv (set S) (lowerStack S)" using S(1) by (rule lower_inv)
    show "2 \<le> length (lowerStack H)" "2 \<le> length (lowerStack S)"
      using H(2) S(2) by (simp_all add: stack_lengths)
    show "set (lowerStack H) \<subseteq> set S" using stack_subsets(1) [of H] HS by blast
    show "set (lowerStack S) \<subseteq> set H" using setH by blast
  qed
  have "map negPoint (upperStack H) = map negPoint (upperStack S)"
  proof (rule chain_unique)
    show "chainInv (negPoint ` set H) (map negPoint (upperStack H))" using H(1) by (rule upper_inv)
    show "chainInv (negPoint ` set S) (map negPoint (upperStack S))" using S(1) by (rule upper_inv)
    show "2 \<le> length (map negPoint (upperStack H))" "2 \<le> length (map negPoint (upperStack S))"
      using H(2) S(2) by (simp_all add: stack_lengths)
    show "set (map negPoint (upperStack H)) \<subseteq> negPoint ` set S"
      using stack_subsets(2) [of H] HS by auto
    show "set (map negPoint (upperStack S)) \<subseteq> negPoint ` set H" using setH by auto
  qed
  then have up: "upperStack H = upperStack S" by (rule negPoint_inj)
  have "exactHull H = rev (tl (lowerStack H)) @ rev (upperStack H)"
    using H3 by (rule exactHull_eq)
  also have "\<dots> = H" using low up True by (simp add: H_def exactHull_eq)
  finally show ?thesis by (simp add: H_def)
qed

lemma stackLeft_neg: "stackLeft (map negPoint st) (negPoint q) = stackLeft st q"
  by (induction st q rule: stackLeft.induct) simp_all

text \<open>Both chains of the hull turn strictly left at every point.\<close>

lemma stackTurns_neg: "stackTurns (map negPoint st) = stackTurns st"
  by (induction st rule: stackTurns.induct) simp_all

lemma exactHull_chains_turn_left:
  assumes "S \<noteq> []"
  shows "stackTurns (lowerStack S) \<and> stackTurns (upperStack S)"
  using lower_inv [OF assms] upper_inv [OF assms] by (simp add: chainInv_def stackTurns_neg)

lemma exactHull_inside:
  assumes p: "p \<in> set S"
  shows "onOrInside (exactHull S) p"
proof (cases "3 \<le> length S")
  case False
  then consider a where "S = [a]" | a b where "S = [a, b]"
    using p by (cases S; cases "tl S"; cases "tl (tl S)") auto
  then show ?thesis
  proof cases
    case 1
    then show ?thesis using p by (simp add: exactHull_small onOrInside_def polygonEdges_def)
  next
    case 2
    then show ?thesis using p by (auto simp: exactHull_small onOrInside_def polygonEdges_def)
  qed
next
  case True
  define H where "H = exactHull S"
  have S: "S \<noteq> []" "2 \<le> length S" using True by auto
  have Heq: "H = rev (tl (lowerStack S)) @ rev (upperStack S)"
    using True by (simp add: H_def exactHull_eq)
  have setH: "set H = set (lowerStack S) \<union> set (upperStack S)"
    using True by (simp add: H_def exactHull_set)
  obtain t b r where l: "lowerStack S = t # b # r"
    using stack_lengths(1) [OF S(2)] by (cases "lowerStack S"; cases "tl (lowerStack S)") auto
  have une: "upperStack S \<noteq> []" using stack_lengths(2) [OF S(2)] by auto
  have ends: "t = last (upperStack S)" "last (b # r) = hd (upperStack S)"
    using stack_ends [OF S(1)] l by simp_all
  have linv: "chainInv (set S) (lowerStack S)" using S(1) by (rule lower_inv)
  have uinv: "chainInv (negPoint ` set S) (map negPoint (upperStack S))" using S(1) by (rule upper_inv)
  have left_l: "stackLeft (t # b # r) p" using linv p l by (simp add: chainInv_def)
  have "stackLeft (map negPoint (upperStack S)) (negPoint p)"
    using uinv p by (simp add: chainInv_def)
  then have left_u: "stackLeft (upperStack S) p" by (simp add: stackLeft_neg)
  have Hne: "H \<noteq> []" using Heq une by simp
  define L' U' where "L' = rev (b # r)" and "U' = rev (upperStack S)"
  have "pathLeft L' p" using left_l by (simp add: L'_def pathLeft_rev del: rev.simps)
  moreover have "pathLeft U' p" using left_u by (simp add: U'_def pathLeft_rev)
  moreover have "last L' = b" by (simp add: L'_def)
  moreover have "hd U' = t" using une ends(1) by (simp add: U'_def hd_rev)
  moreover have "0 \<le> exactCross b t p" using left_l by simp
  ultimately have "pathLeft (L' @ U') p" by (simp add: pathLeft_append)
  then have path: "pathLeft H p" by (simp add: Heq l L'_def U'_def)
  have "last H = hd (upperStack S)" using une by (simp add: Heq last_rev)
  moreover have "hd H = last (b # r)" by (simp add: Heq l hd_append hd_rev)
  ultimately have closing: "exactCross (last H) (hd H) p = 0" using ends(2) by simp
  have edges: "\<forall>(u, v)\<in>set (polygonEdges H). 0 \<le> exactCross u v p"
    using polygonEdges_left [OF Hne, of p] path closing by simp
  have "sortKey (last (lowerStack S)) \<le> sortKey p" "sortKey p \<le> sortKey (hd (lowerStack S))"
    using linv p by (simp_all add: chainInv_def)
  moreover have "last (lowerStack S) \<in> set H" "hd (lowerStack S) \<in> set H"
    using setH l by auto
  ultimately show ?thesis using edges unfolding onOrInside_def H_def by blast
qed

text \<open>
  With exact cross products the result consists of points of the input, every point of
  the input lies on or inside the polygon formed by the result, the function is
  idempotent, and a list of fewer than three points is returned unchanged.
\<close>

lemma exactHull_properties:
  "set (exactHull S) \<subseteq> set S
   \<and> (\<forall>p\<in>set S. onOrInside (exactHull S) p)
   \<and> exactHull (exactHull S) = exactHull S
   \<and> (length S < 3 \<longrightarrow> exactHull S = S)"
  using exactHull_subset exactHull_inside exactHull_idempotent exactHull_small by blast


section \<open>The convex hull on doubles\<close>

subsection \<open>What holds with any rounding\<close>

lemma hullPop_subset: "set (hullPop p st) \<subseteq> set st"
  by (induction p st rule: hullPop.induct) auto

lemma fold_hullPush_subset: "set (fold hullPush xs st) \<subseteq> set xs \<union> set st"
proof (induction xs arbitrary: st)
  case Nil
  then show ?case by simp
next
  case (Cons x xs)
  have "set (hullPush x st) \<subseteq> insert x (set st)"
    using hullPop_subset [of x st] by (auto simp: hullPush_def)
  then show ?case using Cons.IH [of "hullPush x st"] by auto
qed

lemma calculateConvexHull_subset: "set (calculateConvexHull S) \<subseteq> set S"
proof (cases "length S < 3")
  case True
  then show ?thesis by (simp add: calculateConvexHull_def)
next
  case False
  have "set (butlast (buildChain (sort_key sortKey S))) \<subseteq> set S"
    using fold_hullPush_subset [of "sort_key sortKey S" "[]"] in_set_butlastD
    by (fastforce simp: buildChain_def)
  moreover have "set (buildChain (rev (sort_key sortKey S))) \<subseteq> set S"
    using fold_hullPush_subset [of "rev (sort_key sortKey S)" "[]"] by (simp add: buildChain_def)
  ultimately show ?thesis using False by (simp add: calculateConvexHull_def Let_def)
qed

lemma calculateConvexHull_small: "length S < 3 \<Longrightarrow> calculateConvexHull S = S"
  by (simp add: calculateConvexHull_def)

subsection \<open>Agreement with exact arithmetic\<close>

text \<open>
  On a list of points whose rounded cross products have the sign of the exact ones,
  the program computes the hull of exact arithmetic, with its properties.
\<close>

lemma signsAgree_subset: "signsAgree S \<Longrightarrow> set T \<subseteq> set S \<Longrightarrow> signsAgree T"
  unfolding signsAgree_def by blast

lemma hullPop_exact:
  assumes "signsAgree S" "p \<in> set S" "set st \<subseteq> set S"
  shows "hullPop p st = exactPop p st"
  using assms
proof (induction p st rule: hullPop.induct)
  case (1 p b a st)
  have "js_le (crossProduct a b p) (Fin 0) = (exactCross a b p \<le> 0)"
    using "1.prems"(1) [unfolded signsAgree_def, rule_format, of a b p] "1.prems"(2,3) by simp
  then show ?case using 1 by simp
qed simp_all

lemma fold_hullPush_exact:
  assumes "signsAgree S" "set xs \<subseteq> set S" "set st \<subseteq> set S"
  shows "fold hullPush xs st = fold exactPush xs st"
  using assms(2,3)
proof (induction xs arbitrary: st)
  case Nil
  then show ?case by simp
next
  case (Cons x xs)
  have eq: "hullPush x st = exactPush x st"
    using hullPop_exact [OF assms(1), of x st] Cons.prems by (simp add: hullPush_def exactPush_def)
  have "set (exactPush x st) \<subseteq> set S"
    using exactPop_subset [of x st] Cons.prems by (auto simp: exactPush_def)
  then show ?case using Cons.IH [of "exactPush x st"] Cons.prems(1) eq by simp
qed

lemma calculateConvexHull_exact:
  assumes "signsAgree S"
  shows "calculateConvexHull S = exactHull S"
proof -
  have "fold hullPush (sort_key sortKey S) [] = fold exactPush (sort_key sortKey S) []"
    by (rule fold_hullPush_exact [OF assms]) simp_all
  moreover have "fold hullPush (rev (sort_key sortKey S)) [] = fold exactPush (rev (sort_key sortKey S)) []"
    by (rule fold_hullPush_exact [OF assms]) simp_all
  ultimately show ?thesis
    by (simp add: calculateConvexHull_def exactHull_def buildChain_def exactChain_def)
qed

lemma calculateConvexHull_properties:
  assumes "signsAgree S"
  shows "set (calculateConvexHull S) \<subseteq> set S
   \<and> (\<forall>p\<in>set S. onOrInside (calculateConvexHull S) p)
   \<and> calculateConvexHull (calculateConvexHull S) = calculateConvexHull S"
proof -
  have eq: "calculateConvexHull S = exactHull S" using assms by (rule calculateConvexHull_exact)
  have "signsAgree (exactHull S)"
    using assms exactHull_subset by (rule signsAgree_subset)
  then have "calculateConvexHull (exactHull S) = exactHull (exactHull S)"
    by (rule calculateConvexHull_exact)
  then show ?thesis using eq exactHull_properties [of S] by simp
qed


subsection \<open>Evaluating the rounding\<close>

text \<open>
  The double of a real number that lies between \<open>2^e\<close> and \<open>2^(e+1)\<close> in magnitude, for
  an exponent \<open>e\<close> of a normal double, is the multiple of \<open>2^(e-52)\<close> given by
  \<open>roundEven\<close>.
\<close>

lemma roundEven_near: "\<bar>of_int (roundEven r) - r\<bar> \<le> 1 / 2"
  unfolding roundEven_def Let_def by (auto simp: abs_le_iff)

lemma floor_log2:
  assumes "2 powi e \<le> x" "x < 2 powi (e + 1)"
  shows "\<lfloor>log 2 x\<rfloor> = e"
proof -
  have "(0::real) < 2 powi e" by simp
  then have pos: "0 < x" using assms(1) by linarith
  have 1: "(2::real) powr of_int e = 2 powi e" by (rule powr_real_of_int') simp_all
  have "(2::real) powr of_int (e + 1) = 2 powi (e + 1)" by (rule powr_real_of_int') simp_all
  then have 2: "(2::real) powr (of_int e + 1) = 2 powi (e + 1)" by simp
  show ?thesis using assms pos 1 2 by (simp add: floor_log_eq_powr_iff)
qed

lemma fl64_eval:
  assumes lo: "2 powi e \<le> \<bar>x\<bar>" and hi: "\<bar>x\<bar> < 2 powi (e + 1)"
    and e: "- 1022 \<le> e" "e \<le> 1000"
    and m: "roundEven (x / 2 powi (e - 52)) = m"
  shows "fl64 x = Fin (of_int m * 2 powi (e - 52))"
proof -
  have x: "x \<noteq> 0"
  proof
    assume "x = 0"
    then have "(2::real) powi e \<le> 0" using lo by simp
    moreover have "(0::real) < 2 powi e" by simp
    ultimately show False by linarith
  qed
  have fl: "\<lfloor>log 2 \<bar>x\<bar>\<rfloor> = e" using lo hi by (rule floor_log2)
  define q :: real where "q = 2 powi (e - 52)"
  have qpos: "0 < q" by (simp add: q_def)
  have "\<bar>of_int m - x / q\<bar> \<le> 1 / 2" using roundEven_near [of "x / q"] m by (simp add: q_def)
  then have "\<bar>of_int m - x / q\<bar> * q \<le> 1 / 2 * q" using qpos by (simp add: mult_right_mono)
  moreover have "\<bar>of_int m - x / q\<bar> * q = \<bar>of_int m * q - x\<bar>"
  proof -
    have "of_int m * q - x = (of_int m - x / q) * q" using qpos by (simp add: left_diff_distrib)
    then have "\<bar>of_int m * q - x\<bar> = \<bar>of_int m - x / q\<bar> * \<bar>q\<bar>" by (simp only: abs_mult)
    then show ?thesis using qpos by simp
  qed
  ultimately have near: "\<bar>of_int m * q - x\<bar> \<le> q / 2" by simp
  have "q \<le> 2 powi e" unfolding q_def by (rule power_int_increasing) simp_all
  have "\<bar>of_int m * q\<bar> \<le> \<bar>x\<bar> + q / 2" using near by linarith
  also have "\<dots> < 2 powi (e + 1) + 2 powi e" using hi \<open>q \<le> 2 powi e\<close> qpos by linarith
  also have "\<dots> \<le> 2 powi (e + 1) + 2 powi (e + 1)"
    by (simp add: power_int_increasing)
  also have "\<dots> = 2 powi (e + 2)"
  proof -
    have "(2::real) powi (e + 2) = 2 powi (e + 1) * 2"
      using power_int_add_1 [of "2::real" "e + 1"] by (simp add: add.assoc)
    then show ?thesis by simp
  qed
  also have "\<dots> \<le> 2 powi 1024" using e by (intro power_int_increasing) simp_all
  finally have "\<bar>of_int m * q\<bar> < 2 ^ 1024" by simp
  then show ?thesis using x fl e m by (simp add: fl64_def Let_def q_def)
qed



subsection \<open>Four points on a line of slope two thirds\<close>

lemmas points = p06_def p12_def p18_def p42_def

text \<open>The decimal literals of the coordinates denote the doubles of the four points.\<close>

lemma literal_06: "fl64 (6 / 10) = Fin (5404319552844595 / 9007199254740992)"
  by (rule fl64_eval [where e = "-1" and m = "5404319552844595", THEN trans])
      (simp_all add: roundEven_def power_int_minus)

lemma literal_04: "fl64 (4 / 10) = Fin (3602879701896397 / 9007199254740992)"
  by (rule fl64_eval [where e = "-2" and m = "7205759403792794", THEN trans])
      (simp_all add: roundEven_def power_int_minus)

lemma literal_12: "fl64 (12 / 10) = Fin (5404319552844595 / 4503599627370496)"
  by (rule fl64_eval [where e = "0" and m = "5404319552844595", THEN trans])
      (simp_all add: roundEven_def power_int_minus)

lemma literal_08: "fl64 (8 / 10) = Fin (3602879701896397 / 4503599627370496)"
  by (rule fl64_eval [where e = "-1" and m = "7205759403792794", THEN trans])
      (simp_all add: roundEven_def power_int_minus)

lemma literal_18: "fl64 (18 / 10) = Fin (8106479329266893 / 4503599627370496)"
  by (rule fl64_eval [where e = "0" and m = "8106479329266893", THEN trans])
      (simp_all add: roundEven_def power_int_minus)

lemma literal_42: "fl64 (42 / 10) = Fin (4728779608739021 / 1125899906842624)"
  by (rule fl64_eval [where e = "2" and m = "4728779608739021", THEN trans])
      (simp_all add: roundEven_def power_int_minus)

lemma literal_28: "fl64 (28 / 10) = Fin (3152519739159347 / 1125899906842624)"
  by (rule fl64_eval [where e = "1" and m = "6305039478318694", THEN trans])
      (simp_all add: roundEven_def power_int_minus)

lemmas decimal_literals =
  literal_06 literal_04 literal_12 literal_08 literal_18 literal_42 literal_28

text \<open>
  The seven cross products that the program computes for \<open>hullInput\<close> and for its
  hull, each rounded operation by operation.
\<close>

lemma cross_p06_p12_p18: "crossProduct p06 p12 p18 = Fin (- (3 / 18014398509481984))"
proof -
  have d1: "js_sub (Fin (lat p12)) (Fin (lat p06)) = Fin (5404319552844595 / 9007199254740992)"
  proof -
    have v: "lat p12 - lat p06 = (5404319552844595 / 9007199254740992 :: real)"
      by (simp add: points)
    have r: "fl64 (5404319552844595 / 9007199254740992) = Fin (5404319552844595 / 9007199254740992)"
      by (rule fl64_eval [where e = "-1" and m = "5404319552844595", THEN trans])
      (simp_all add: roundEven_def power_int_minus)
    show ?thesis by (simp only: js_sub.simps v r)
  qed
  have d2: "js_sub (Fin (lng p18)) (Fin (lng p06)) = Fin (7205759403792793 / 9007199254740992)"
  proof -
    have v: "lng p18 - lng p06 = (7205759403792793 / 9007199254740992 :: real)"
      by (simp add: points)
    have r: "fl64 (7205759403792793 / 9007199254740992) = Fin (7205759403792793 / 9007199254740992)"
      by (rule fl64_eval [where e = "-1" and m = "7205759403792793", THEN trans])
      (simp_all add: roundEven_def power_int_minus)
    show ?thesis by (simp only: js_sub.simps v r)
  qed
  have d3: "js_sub (Fin (lng p12)) (Fin (lng p06)) = Fin (3602879701896397 / 9007199254740992)"
  proof -
    have v: "lng p12 - lng p06 = (3602879701896397 / 9007199254740992 :: real)"
      by (simp add: points)
    have r: "fl64 (3602879701896397 / 9007199254740992) = Fin (3602879701896397 / 9007199254740992)"
      by (rule fl64_eval [where e = "-2" and m = "7205759403792794", THEN trans])
      (simp_all add: roundEven_def power_int_minus)
    show ?thesis by (simp only: js_sub.simps v r)
  qed
  have d4: "js_sub (Fin (lat p18)) (Fin (lat p06)) = Fin (1351079888211149 / 1125899906842624)"
  proof -
    have v: "lat p18 - lat p06 = (10808639105689191 / 9007199254740992 :: real)"
      by (simp add: points)
    have r: "fl64 (10808639105689191 / 9007199254740992) = Fin (1351079888211149 / 1125899906842624)"
      by (rule fl64_eval [where e = "0" and m = "5404319552844596", THEN trans])
      (simp_all add: roundEven_def power_int_minus)
    show ?thesis by (simp only: js_sub.simps v r)
  qed
  have m1: "js_times (Fin (5404319552844595 / 9007199254740992)) (Fin (7205759403792793 / 9007199254740992)) = Fin (8646911284551351 / 18014398509481984)"
  proof -
    have v: "(5404319552844595 / 9007199254740992) * (7205759403792793 / 9007199254740992) = (38942226439011202530235110003835 / 81129638414606681695789005144064 :: real)"
      by (simp add: points)
    have r: "fl64 (38942226439011202530235110003835 / 81129638414606681695789005144064) = Fin (8646911284551351 / 18014398509481984)"
      by (rule fl64_eval [where e = "-2" and m = "8646911284551351", THEN trans])
      (simp_all add: roundEven_def power_int_minus)
    show ?thesis by (simp only: js_times.simps v r)
  qed
  have m2: "js_times (Fin (3602879701896397 / 9007199254740992)) (Fin (1351079888211149 / 1125899906842624)) = Fin (4323455642275677 / 9007199254740992)"
  proof -
    have v: "(3602879701896397 / 9007199254740992) * (1351079888211149 / 1125899906842624) = (4867778304876401892539258330153 / 10141204801825835211973625643008 :: real)"
      by (simp add: points)
    have r: "fl64 (4867778304876401892539258330153 / 10141204801825835211973625643008) = Fin (4323455642275677 / 9007199254740992)"
      by (rule fl64_eval [where e = "-2" and m = "8646911284551354", THEN trans])
      (simp_all add: roundEven_def power_int_minus)
    show ?thesis by (simp only: js_times.simps v r)
  qed
  have r: "js_sub (Fin (8646911284551351 / 18014398509481984)) (Fin (4323455642275677 / 9007199254740992)) = Fin (- (3 / 18014398509481984))"
  proof -
    have v: "(8646911284551351 / 18014398509481984) - (4323455642275677 / 9007199254740992) = (- (3 / 18014398509481984) :: real)"
      by (simp add: points)
    have r: "fl64 (- (3 / 18014398509481984)) = Fin (- (3 / 18014398509481984))"
      by (rule fl64_eval [where e = "-53" and m = "-6755399441055744", THEN trans])
      (simp_all add: roundEven_def power_int_minus)
    show ?thesis by (simp only: js_sub.simps v r)
  qed
  show ?thesis by (simp only: crossProduct_def d1 d2 d3 d4 m1 m2 r)
qed

lemma cross_p06_p18_p42: "crossProduct p06 p18 p42 = Fin (1 / 2251799813685248)"
proof -
  have d1: "js_sub (Fin (lat p18)) (Fin (lat p06)) = Fin (1351079888211149 / 1125899906842624)"
  proof -
    have v: "lat p18 - lat p06 = (10808639105689191 / 9007199254740992 :: real)"
      by (simp add: points)
    have r: "fl64 (10808639105689191 / 9007199254740992) = Fin (1351079888211149 / 1125899906842624)"
      by (rule fl64_eval [where e = "0" and m = "5404319552844596", THEN trans])
      (simp_all add: roundEven_def power_int_minus)
    show ?thesis by (simp only: js_sub.simps v r)
  qed
  have d2: "js_sub (Fin (lng p42)) (Fin (lng p06)) = Fin (5404319552844595 / 2251799813685248)"
  proof -
    have v: "lng p42 - lng p06 = (21617278211378379 / 9007199254740992 :: real)"
      by (simp add: points)
    have r: "fl64 (21617278211378379 / 9007199254740992) = Fin (5404319552844595 / 2251799813685248)"
      by (rule fl64_eval [where e = "1" and m = "5404319552844595", THEN trans])
      (simp_all add: roundEven_def power_int_minus)
    show ?thesis by (simp only: js_sub.simps v r)
  qed
  have d3: "js_sub (Fin (lng p18)) (Fin (lng p06)) = Fin (7205759403792793 / 9007199254740992)"
  proof -
    have v: "lng p18 - lng p06 = (7205759403792793 / 9007199254740992 :: real)"
      by (simp add: points)
    have r: "fl64 (7205759403792793 / 9007199254740992) = Fin (7205759403792793 / 9007199254740992)"
      by (rule fl64_eval [where e = "-1" and m = "7205759403792793", THEN trans])
      (simp_all add: roundEven_def power_int_minus)
    show ?thesis by (simp only: js_sub.simps v r)
  qed
  have d4: "js_sub (Fin (lat p42)) (Fin (lat p06)) = Fin (8106479329266893 / 2251799813685248)"
  proof -
    have v: "lat p42 - lat p06 = (32425917317067573 / 9007199254740992 :: real)"
      by (simp add: points)
    have r: "fl64 (32425917317067573 / 9007199254740992) = Fin (8106479329266893 / 2251799813685248)"
      by (rule fl64_eval [where e = "1" and m = "8106479329266893", THEN trans])
      (simp_all add: roundEven_def power_int_minus)
    show ?thesis by (simp only: js_sub.simps v r)
  qed
  have m1: "js_times (Fin (1351079888211149 / 1125899906842624)) (Fin (5404319552844595 / 2251799813685248)) = Fin (6485183463413515 / 2251799813685248)"
  proof -
    have v: "(1351079888211149 / 1125899906842624) * (5404319552844595 / 2251799813685248) = (7301667457314602163268943389655 / 2535301200456458802993406410752 :: real)"
      by (simp add: points)
    have r: "fl64 (7301667457314602163268943389655 / 2535301200456458802993406410752) = Fin (6485183463413515 / 2251799813685248)"
      by (rule fl64_eval [where e = "1" and m = "6485183463413515", THEN trans])
      (simp_all add: roundEven_def power_int_minus)
    show ?thesis by (simp only: js_times.simps v r)
  qed
  have m2: "js_times (Fin (7205759403792793 / 9007199254740992)) (Fin (8106479329266893 / 2251799813685248)) = Fin (3242591731706757 / 1125899906842624)"
  proof -
    have v: "(7205759403792793 / 9007199254740992) * (8106479329266893 / 2251799813685248) = (58413339658516807398232366902149 / 20282409603651670423947251286016 :: real)"
      by (simp add: points)
    have r: "fl64 (58413339658516807398232366902149 / 20282409603651670423947251286016) = Fin (3242591731706757 / 1125899906842624)"
      by (rule fl64_eval [where e = "1" and m = "6485183463413514", THEN trans])
      (simp_all add: roundEven_def power_int_minus)
    show ?thesis by (simp only: js_times.simps v r)
  qed
  have r: "js_sub (Fin (6485183463413515 / 2251799813685248)) (Fin (3242591731706757 / 1125899906842624)) = Fin (1 / 2251799813685248)"
  proof -
    have v: "(6485183463413515 / 2251799813685248) - (3242591731706757 / 1125899906842624) = (1 / 2251799813685248 :: real)"
      by (simp add: points)
    have r: "fl64 (1 / 2251799813685248) = Fin (1 / 2251799813685248)"
      by (rule fl64_eval [where e = "-51" and m = "4503599627370496", THEN trans])
      (simp_all add: roundEven_def power_int_minus)
    show ?thesis by (simp only: js_sub.simps v r)
  qed
  show ?thesis by (simp only: crossProduct_def d1 d2 d3 d4 m1 m2 r)
qed

lemma cross_p42_p18_p12: "crossProduct p42 p18 p12 = Fin (0)"
proof -
  have d1: "js_sub (Fin (lat p18)) (Fin (lat p42)) = Fin (- (1351079888211149 / 562949953421312))"
  proof -
    have v: "lat p18 - lat p42 = (- (10808639105689191 / 4503599627370496) :: real)"
      by (simp add: points)
    have r: "fl64 (- (10808639105689191 / 4503599627370496)) = Fin (- (1351079888211149 / 562949953421312))"
      by (rule fl64_eval [where e = "1" and m = "-5404319552844596", THEN trans])
      (simp_all add: roundEven_def power_int_minus)
    show ?thesis by (simp only: js_sub.simps v r)
  qed
  have d2: "js_sub (Fin (lng p12)) (Fin (lng p42)) = Fin (- (9007199254740991 / 4503599627370496))"
  proof -
    have v: "lng p12 - lng p42 = (- (9007199254740991 / 4503599627370496) :: real)"
      by (simp add: points)
    have r: "fl64 (- (9007199254740991 / 4503599627370496)) = Fin (- (9007199254740991 / 4503599627370496))"
      by (rule fl64_eval [where e = "0" and m = "-9007199254740991", THEN trans])
      (simp_all add: roundEven_def power_int_minus)
    show ?thesis by (simp only: js_sub.simps v r)
  qed
  have d3: "js_sub (Fin (lng p18)) (Fin (lng p42)) = Fin (- (7205759403792793 / 4503599627370496))"
  proof -
    have v: "lng p18 - lng p42 = (- (7205759403792793 / 4503599627370496) :: real)"
      by (simp add: points)
    have r: "fl64 (- (7205759403792793 / 4503599627370496)) = Fin (- (7205759403792793 / 4503599627370496))"
      by (rule fl64_eval [where e = "0" and m = "-7205759403792793", THEN trans])
      (simp_all add: roundEven_def power_int_minus)
    show ?thesis by (simp only: js_sub.simps v r)
  qed
  have d4: "js_sub (Fin (lat p12)) (Fin (lat p42)) = Fin (- 3)"
  proof -
    have v: "lat p12 - lat p42 = (- (13510798882111489 / 4503599627370496) :: real)"
      by (simp add: points)
    have r: "fl64 (- (13510798882111489 / 4503599627370496)) = Fin (- 3)"
      by (rule fl64_eval [where e = "1" and m = "-6755399441055744", THEN trans])
      (simp_all add: roundEven_def power_int_minus)
    show ?thesis by (simp only: js_sub.simps v r)
  qed
  have m1: "js_times (Fin (- (1351079888211149 / 562949953421312))) (Fin (- (9007199254740991 / 4503599627370496))) = Fin (5404319552844595 / 1125899906842624)"
  proof -
    have v: "(- (1351079888211149 / 562949953421312)) * (- (9007199254740991 / 4503599627370496)) = (12169445762191002704728313508659 / 2535301200456458802993406410752 :: real)"
      by (simp add: points)
    have r: "fl64 (12169445762191002704728313508659 / 2535301200456458802993406410752) = Fin (5404319552844595 / 1125899906842624)"
      by (rule fl64_eval [where e = "2" and m = "5404319552844595", THEN trans])
      (simp_all add: roundEven_def power_int_minus)
    show ?thesis by (simp only: js_times.simps v r)
  qed
  have m2: "js_times (Fin (- (7205759403792793 / 4503599627370496))) (Fin (- 3)) = Fin (5404319552844595 / 1125899906842624)"
  proof -
    have v: "(- (7205759403792793 / 4503599627370496)) * (- 3) = (21617278211378379 / 4503599627370496 :: real)"
      by (simp add: points)
    have r: "fl64 (21617278211378379 / 4503599627370496) = Fin (5404319552844595 / 1125899906842624)"
      by (rule fl64_eval [where e = "2" and m = "5404319552844595", THEN trans])
      (simp_all add: roundEven_def power_int_minus)
    show ?thesis by (simp only: js_times.simps v r)
  qed
  have r: "js_sub (Fin (5404319552844595 / 1125899906842624)) (Fin (5404319552844595 / 1125899906842624)) = Fin (0)"
  proof -
    have v: "(5404319552844595 / 1125899906842624) - (5404319552844595 / 1125899906842624) = (0 :: real)"
      by (simp add: points)
    have r: "fl64 (0) = Fin (0)"
      by (simp add: fl64_def)
    show ?thesis by (simp only: js_sub.simps v r)
  qed
  show ?thesis by (simp only: crossProduct_def d1 d2 d3 d4 m1 m2 r)
qed

lemma cross_p42_p12_p06: "crossProduct p42 p12 p06 = Fin (0)"
proof -
  have d1: "js_sub (Fin (lat p12)) (Fin (lat p42)) = Fin (- 3)"
  proof -
    have v: "lat p12 - lat p42 = (- (13510798882111489 / 4503599627370496) :: real)"
      by (simp add: points)
    have r: "fl64 (- (13510798882111489 / 4503599627370496)) = Fin (- 3)"
      by (rule fl64_eval [where e = "1" and m = "-6755399441055744", THEN trans])
      (simp_all add: roundEven_def power_int_minus)
    show ?thesis by (simp only: js_sub.simps v r)
  qed
  have d2: "js_sub (Fin (lng p06)) (Fin (lng p42)) = Fin (- (5404319552844595 / 2251799813685248))"
  proof -
    have v: "lng p06 - lng p42 = (- (21617278211378379 / 9007199254740992) :: real)"
      by (simp add: points)
    have r: "fl64 (- (21617278211378379 / 9007199254740992)) = Fin (- (5404319552844595 / 2251799813685248))"
      by (rule fl64_eval [where e = "1" and m = "-5404319552844595", THEN trans])
      (simp_all add: roundEven_def power_int_minus)
    show ?thesis by (simp only: js_sub.simps v r)
  qed
  have d3: "js_sub (Fin (lng p12)) (Fin (lng p42)) = Fin (- (9007199254740991 / 4503599627370496))"
  proof -
    have v: "lng p12 - lng p42 = (- (9007199254740991 / 4503599627370496) :: real)"
      by (simp add: points)
    have r: "fl64 (- (9007199254740991 / 4503599627370496)) = Fin (- (9007199254740991 / 4503599627370496))"
      by (rule fl64_eval [where e = "0" and m = "-9007199254740991", THEN trans])
      (simp_all add: roundEven_def power_int_minus)
    show ?thesis by (simp only: js_sub.simps v r)
  qed
  have d4: "js_sub (Fin (lat p06)) (Fin (lat p42)) = Fin (- (8106479329266893 / 2251799813685248))"
  proof -
    have v: "lat p06 - lat p42 = (- (32425917317067573 / 9007199254740992) :: real)"
      by (simp add: points)
    have r: "fl64 (- (32425917317067573 / 9007199254740992)) = Fin (- (8106479329266893 / 2251799813685248))"
      by (rule fl64_eval [where e = "1" and m = "-8106479329266893", THEN trans])
      (simp_all add: roundEven_def power_int_minus)
    show ?thesis by (simp only: js_sub.simps v r)
  qed
  have m1: "js_times (Fin (- 3)) (Fin (- (5404319552844595 / 2251799813685248))) = Fin (2026619832316723 / 281474976710656)"
  proof -
    have v: "(- 3) * (- (5404319552844595 / 2251799813685248)) = (16212958658533785 / 2251799813685248 :: real)"
      by (simp add: points)
    have r: "fl64 (16212958658533785 / 2251799813685248) = Fin (2026619832316723 / 281474976710656)"
      by (rule fl64_eval [where e = "2" and m = "8106479329266892", THEN trans])
      (simp_all add: roundEven_def power_int_minus)
    show ?thesis by (simp only: js_times.simps v r)
  qed
  have m2: "js_times (Fin (- (9007199254740991 / 4503599627370496))) (Fin (- (8106479329266893 / 2251799813685248))) = Fin (2026619832316723 / 281474976710656)"
  proof -
    have v: "(- (9007199254740991 / 4503599627370496)) * (- (8106479329266893 / 2251799813685248)) = (73016674573146007221170626310963 / 10141204801825835211973625643008 :: real)"
      by (simp add: points)
    have r: "fl64 (73016674573146007221170626310963 / 10141204801825835211973625643008) = Fin (2026619832316723 / 281474976710656)"
      by (rule fl64_eval [where e = "2" and m = "8106479329266892", THEN trans])
      (simp_all add: roundEven_def power_int_minus)
    show ?thesis by (simp only: js_times.simps v r)
  qed
  have r: "js_sub (Fin (2026619832316723 / 281474976710656)) (Fin (2026619832316723 / 281474976710656)) = Fin (0)"
  proof -
    have v: "(2026619832316723 / 281474976710656) - (2026619832316723 / 281474976710656) = (0 :: real)"
      by (simp add: points)
    have r: "fl64 (0) = Fin (0)"
      by (simp add: fl64_def)
    show ?thesis by (simp only: js_sub.simps v r)
  qed
  show ?thesis by (simp only: crossProduct_def d1 d2 d3 d4 m1 m2 r)
qed

lemma cross_p06_p06_p18: "crossProduct p06 p06 p18 = Fin (0)"
proof -
  have d1: "js_sub (Fin (lat p06)) (Fin (lat p06)) = Fin (0)"
  proof -
    have v: "lat p06 - lat p06 = (0 :: real)"
      by (simp add: points)
    have r: "fl64 (0) = Fin (0)"
      by (simp add: fl64_def)
    show ?thesis by (simp only: js_sub.simps v r)
  qed
  have d2: "js_sub (Fin (lng p18)) (Fin (lng p06)) = Fin (7205759403792793 / 9007199254740992)"
  proof -
    have v: "lng p18 - lng p06 = (7205759403792793 / 9007199254740992 :: real)"
      by (simp add: points)
    have r: "fl64 (7205759403792793 / 9007199254740992) = Fin (7205759403792793 / 9007199254740992)"
      by (rule fl64_eval [where e = "-1" and m = "7205759403792793", THEN trans])
      (simp_all add: roundEven_def power_int_minus)
    show ?thesis by (simp only: js_sub.simps v r)
  qed
  have d3: "js_sub (Fin (lng p06)) (Fin (lng p06)) = Fin (0)"
  proof -
    have v: "lng p06 - lng p06 = (0 :: real)"
      by (simp add: points)
    have r: "fl64 (0) = Fin (0)"
      by (simp add: fl64_def)
    show ?thesis by (simp only: js_sub.simps v r)
  qed
  have d4: "js_sub (Fin (lat p18)) (Fin (lat p06)) = Fin (1351079888211149 / 1125899906842624)"
  proof -
    have v: "lat p18 - lat p06 = (10808639105689191 / 9007199254740992 :: real)"
      by (simp add: points)
    have r: "fl64 (10808639105689191 / 9007199254740992) = Fin (1351079888211149 / 1125899906842624)"
      by (rule fl64_eval [where e = "0" and m = "5404319552844596", THEN trans])
      (simp_all add: roundEven_def power_int_minus)
    show ?thesis by (simp only: js_sub.simps v r)
  qed
  have m1: "js_times (Fin (0)) (Fin (7205759403792793 / 9007199254740992)) = Fin (0)"
  proof -
    have v: "(0) * (7205759403792793 / 9007199254740992) = (0 :: real)"
      by (simp add: points)
    have r: "fl64 (0) = Fin (0)"
      by (simp add: fl64_def)
    show ?thesis by (simp only: js_times.simps v r)
  qed
  have m2: "js_times (Fin (0)) (Fin (1351079888211149 / 1125899906842624)) = Fin (0)"
  proof -
    have v: "(0) * (1351079888211149 / 1125899906842624) = (0 :: real)"
      by (simp add: points)
    have r: "fl64 (0) = Fin (0)"
      by (simp add: fl64_def)
    show ?thesis by (simp only: js_times.simps v r)
  qed
  have r: "js_sub (Fin (0)) (Fin (0)) = Fin (0)"
  proof -
    have v: "(0) - (0) = (0 :: real)"
      by (simp add: points)
    have r: "fl64 (0) = Fin (0)"
      by (simp add: fl64_def)
    show ?thesis by (simp only: js_sub.simps v r)
  qed
  show ?thesis by (simp only: crossProduct_def d1 d2 d3 d4 m1 m2 r)
qed

lemma cross_p42_p18_p06: "crossProduct p42 p18 p06 = Fin (1 / 1125899906842624)"
proof -
  have d1: "js_sub (Fin (lat p18)) (Fin (lat p42)) = Fin (- (1351079888211149 / 562949953421312))"
  proof -
    have v: "lat p18 - lat p42 = (- (10808639105689191 / 4503599627370496) :: real)"
      by (simp add: points)
    have r: "fl64 (- (10808639105689191 / 4503599627370496)) = Fin (- (1351079888211149 / 562949953421312))"
      by (rule fl64_eval [where e = "1" and m = "-5404319552844596", THEN trans])
      (simp_all add: roundEven_def power_int_minus)
    show ?thesis by (simp only: js_sub.simps v r)
  qed
  have d2: "js_sub (Fin (lng p06)) (Fin (lng p42)) = Fin (- (5404319552844595 / 2251799813685248))"
  proof -
    have v: "lng p06 - lng p42 = (- (21617278211378379 / 9007199254740992) :: real)"
      by (simp add: points)
    have r: "fl64 (- (21617278211378379 / 9007199254740992)) = Fin (- (5404319552844595 / 2251799813685248))"
      by (rule fl64_eval [where e = "1" and m = "-5404319552844595", THEN trans])
      (simp_all add: roundEven_def power_int_minus)
    show ?thesis by (simp only: js_sub.simps v r)
  qed
  have d3: "js_sub (Fin (lng p18)) (Fin (lng p42)) = Fin (- (7205759403792793 / 4503599627370496))"
  proof -
    have v: "lng p18 - lng p42 = (- (7205759403792793 / 4503599627370496) :: real)"
      by (simp add: points)
    have r: "fl64 (- (7205759403792793 / 4503599627370496)) = Fin (- (7205759403792793 / 4503599627370496))"
      by (rule fl64_eval [where e = "0" and m = "-7205759403792793", THEN trans])
      (simp_all add: roundEven_def power_int_minus)
    show ?thesis by (simp only: js_sub.simps v r)
  qed
  have d4: "js_sub (Fin (lat p06)) (Fin (lat p42)) = Fin (- (8106479329266893 / 2251799813685248))"
  proof -
    have v: "lat p06 - lat p42 = (- (32425917317067573 / 9007199254740992) :: real)"
      by (simp add: points)
    have r: "fl64 (- (32425917317067573 / 9007199254740992)) = Fin (- (8106479329266893 / 2251799813685248))"
      by (rule fl64_eval [where e = "1" and m = "-8106479329266893", THEN trans])
      (simp_all add: roundEven_def power_int_minus)
    show ?thesis by (simp only: js_sub.simps v r)
  qed
  have m1: "js_times (Fin (- (1351079888211149 / 562949953421312))) (Fin (- (5404319552844595 / 2251799813685248))) = Fin (6485183463413515 / 1125899906842624)"
  proof -
    have v: "(- (1351079888211149 / 562949953421312)) * (- (5404319552844595 / 2251799813685248)) = (7301667457314602163268943389655 / 1267650600228229401496703205376 :: real)"
      by (simp add: points)
    have r: "fl64 (7301667457314602163268943389655 / 1267650600228229401496703205376) = Fin (6485183463413515 / 1125899906842624)"
      by (rule fl64_eval [where e = "2" and m = "6485183463413515", THEN trans])
      (simp_all add: roundEven_def power_int_minus)
    show ?thesis by (simp only: js_times.simps v r)
  qed
  have m2: "js_times (Fin (- (7205759403792793 / 4503599627370496))) (Fin (- (8106479329266893 / 2251799813685248))) = Fin (3242591731706757 / 562949953421312)"
  proof -
    have v: "(- (7205759403792793 / 4503599627370496)) * (- (8106479329266893 / 2251799813685248)) = (58413339658516807398232366902149 / 10141204801825835211973625643008 :: real)"
      by (simp add: points)
    have r: "fl64 (58413339658516807398232366902149 / 10141204801825835211973625643008) = Fin (3242591731706757 / 562949953421312)"
      by (rule fl64_eval [where e = "2" and m = "6485183463413514", THEN trans])
      (simp_all add: roundEven_def power_int_minus)
    show ?thesis by (simp only: js_times.simps v r)
  qed
  have r: "js_sub (Fin (6485183463413515 / 1125899906842624)) (Fin (3242591731706757 / 562949953421312)) = Fin (1 / 1125899906842624)"
  proof -
    have v: "(6485183463413515 / 1125899906842624) - (3242591731706757 / 562949953421312) = (1 / 1125899906842624 :: real)"
      by (simp add: points)
    have r: "fl64 (1 / 1125899906842624) = Fin (1 / 1125899906842624)"
      by (rule fl64_eval [where e = "-50" and m = "4503599627370496", THEN trans])
      (simp_all add: roundEven_def power_int_minus)
    show ?thesis by (simp only: js_sub.simps v r)
  qed
  show ?thesis by (simp only: crossProduct_def d1 d2 d3 d4 m1 m2 r)
qed

lemma cross_p18_p06_p06: "crossProduct p18 p06 p06 = Fin (0)"
proof -
  have d1: "js_sub (Fin (lat p06)) (Fin (lat p18)) = Fin (- (1351079888211149 / 1125899906842624))"
  proof -
    have v: "lat p06 - lat p18 = (- (10808639105689191 / 9007199254740992) :: real)"
      by (simp add: points)
    have r: "fl64 (- (10808639105689191 / 9007199254740992)) = Fin (- (1351079888211149 / 1125899906842624))"
      by (rule fl64_eval [where e = "0" and m = "-5404319552844596", THEN trans])
      (simp_all add: roundEven_def power_int_minus)
    show ?thesis by (simp only: js_sub.simps v r)
  qed
  have d2: "js_sub (Fin (lng p06)) (Fin (lng p18)) = Fin (- (7205759403792793 / 9007199254740992))"
  proof -
    have v: "lng p06 - lng p18 = (- (7205759403792793 / 9007199254740992) :: real)"
      by (simp add: points)
    have r: "fl64 (- (7205759403792793 / 9007199254740992)) = Fin (- (7205759403792793 / 9007199254740992))"
      by (rule fl64_eval [where e = "-1" and m = "-7205759403792793", THEN trans])
      (simp_all add: roundEven_def power_int_minus)
    show ?thesis by (simp only: js_sub.simps v r)
  qed
  have d3: "js_sub (Fin (lng p06)) (Fin (lng p18)) = Fin (- (7205759403792793 / 9007199254740992))"
  proof -
    have v: "lng p06 - lng p18 = (- (7205759403792793 / 9007199254740992) :: real)"
      by (simp add: points)
    have r: "fl64 (- (7205759403792793 / 9007199254740992)) = Fin (- (7205759403792793 / 9007199254740992))"
      by (rule fl64_eval [where e = "-1" and m = "-7205759403792793", THEN trans])
      (simp_all add: roundEven_def power_int_minus)
    show ?thesis by (simp only: js_sub.simps v r)
  qed
  have d4: "js_sub (Fin (lat p06)) (Fin (lat p18)) = Fin (- (1351079888211149 / 1125899906842624))"
  proof -
    have v: "lat p06 - lat p18 = (- (10808639105689191 / 9007199254740992) :: real)"
      by (simp add: points)
    have r: "fl64 (- (10808639105689191 / 9007199254740992)) = Fin (- (1351079888211149 / 1125899906842624))"
      by (rule fl64_eval [where e = "0" and m = "-5404319552844596", THEN trans])
      (simp_all add: roundEven_def power_int_minus)
    show ?thesis by (simp only: js_sub.simps v r)
  qed
  have m1: "js_times (Fin (- (1351079888211149 / 1125899906842624))) (Fin (- (7205759403792793 / 9007199254740992))) = Fin (8646911284551353 / 9007199254740992)"
  proof -
    have v: "(- (1351079888211149 / 1125899906842624)) * (- (7205759403792793 / 9007199254740992)) = (9735556609752802433998628449157 / 10141204801825835211973625643008 :: real)"
      by (simp add: points)
    have r: "fl64 (9735556609752802433998628449157 / 10141204801825835211973625643008) = Fin (8646911284551353 / 9007199254740992)"
      by (rule fl64_eval [where e = "-1" and m = "8646911284551353", THEN trans])
      (simp_all add: roundEven_def power_int_minus)
    show ?thesis by (simp only: js_times.simps v r)
  qed
  have m2: "js_times (Fin (- (7205759403792793 / 9007199254740992))) (Fin (- (1351079888211149 / 1125899906842624))) = Fin (8646911284551353 / 9007199254740992)"
  proof -
    have v: "(- (7205759403792793 / 9007199254740992)) * (- (1351079888211149 / 1125899906842624)) = (9735556609752802433998628449157 / 10141204801825835211973625643008 :: real)"
      by (simp add: points)
    have r: "fl64 (9735556609752802433998628449157 / 10141204801825835211973625643008) = Fin (8646911284551353 / 9007199254740992)"
      by (rule fl64_eval [where e = "-1" and m = "8646911284551353", THEN trans])
      (simp_all add: roundEven_def power_int_minus)
    show ?thesis by (simp only: js_times.simps v r)
  qed
  have r: "js_sub (Fin (8646911284551353 / 9007199254740992)) (Fin (8646911284551353 / 9007199254740992)) = Fin (0)"
  proof -
    have v: "(8646911284551353 / 9007199254740992) - (8646911284551353 / 9007199254740992) = (0 :: real)"
      by (simp add: points)
    have r: "fl64 (0) = Fin (0)"
      by (simp add: fl64_def)
    show ?thesis by (simp only: js_sub.simps v r)
  qed
  show ?thesis by (simp only: crossProduct_def d1 d2 d3 d4 m1 m2 r)
qed

lemma sort_hullInput: "sort_key sortKey hullInput = [p06, p12, p18, p42]"
  by (simp add: hullInput_def sortKey_def points)

lemma lower_hullInput: "buildChain [p06, p12, p18, p42] = [p06, p18, p42]"
  by (simp add: buildChain_def hullPush_def cross_p06_p12_p18 cross_p06_p18_p42)

lemma upper_hullInput: "buildChain [p42, p18, p12, p06] = [p42, p06]"
  by (simp add: buildChain_def hullPush_def cross_p42_p18_p12 cross_p42_p12_p06)

lemma hull_hullInput: "calculateConvexHull hullInput = [p06, p18, p42, p06]"
  by (simp add: calculateConvexHull_def sort_hullInput lower_hullInput upper_hullInput)
    (simp add: hullInput_def)

lemma sort_hull: "sort_key sortKey [p06, p18, p42, p06] = [p06, p06, p18, p42]"
  by (simp add: sortKey_def points)

lemma lower_hull: "buildChain [p06, p06, p18, p42] = [p06, p18, p42]"
  by (simp add: buildChain_def hullPush_def cross_p06_p06_p18 cross_p06_p18_p42)

lemma upper_hull: "buildChain [p42, p18, p06, p06] = [p42, p18, p06]"
  by (simp add: buildChain_def hullPush_def cross_p42_p18_p06 cross_p18_p06_p06)

lemma hull_hull: "calculateConvexHull [p06, p18, p42, p06] = [p06, p18, p42, p18, p06]"
  unfolding calculateConvexHull_def Let_def sort_hull
  by (simp add: lower_hull upper_hull)

text \<open>
  In exact arithmetic the hull of the four points has the three corners \<open>(0.6, 0.4)\<close>,
  \<open>(4.2, 2.8)\<close>, \<open>(1.2, 0.8)\<close>; the polygon that the program returns leaves
  \<open>(1.2, 0.8)\<close> outside.
\<close>

lemma exactHull_hullInput: "exactHull hullInput = [p06, p42, p12, p06]"
  by (simp add: hullInput_def exactHull_def exactChain_def exactPush_def exactCross_def
      sortKey_def points)

lemma hullInput_outside: "\<not> onOrInside (calculateConvexHull hullInput) p12"
  by (simp add: hull_hullInput onOrInside_def polygonEdges_def exactCross_def points)

text \<open>
  C7 at the points \<open>(1.8, 1.2)\<close>, \<open>(4.2, 2.8)\<close>, \<open>(0.6, 0.4)\<close>, \<open>(1.2, 0.8)\<close>: the
  result of \<open>calculateConvexHull\<close> has four entries and the result for that result has
  five, so the function is not idempotent here; and the input point \<open>(1.2, 0.8)\<close> lies
  strictly right of the edge from \<open>(4.2, 2.8)\<close> to \<open>(0.6, 0.4)\<close> of the returned
  polygon (by the exact cross product of these doubles), outside the polygon.
\<close>

theorem convex_hull_rounding:
  "calculateConvexHull hullInput = [p06, p18, p42, p06]
   \<and> calculateConvexHull (calculateConvexHull hullInput) = [p06, p18, p42, p18, p06]
   \<and> calculateConvexHull (calculateConvexHull hullInput) \<noteq> calculateConvexHull hullInput
   \<and> p12 \<in> set hullInput
   \<and> (p42, p06) \<in> set (polygonEdges (calculateConvexHull hullInput))
   \<and> exactCross p42 p06 p12 < 0"
  by (simp add: hull_hullInput hull_hull)
    (simp add: hullInput_def polygonEdges_def exactCross_def points)

end
